theory Spec2Isabelle
  imports Complex_Main "HOL-Library.Word" "HOL-Library.Log_Nat" "HOL-Library.Multiset"
begin

unbundle bit_operations_syntax

section \<open>Binary floating point\<close>

text \<open>
  The sink and the compositor compute with C \<^verbatim>\<open>float\<close> and \<^verbatim>\<open>double\<close>. A finite
  floating-point number is a rational; an operation is the exact rational operation
  followed by rounding to the nearest number with a \<open>p\<close>-bit significand, ties to the
  even significand (\<open>p = 24\<close> for \<^verbatim>\<open>float\<close>, \<open>p = 53\<close> for \<^verbatim>\<open>double\<close>). The exponent is
  unbounded here: overflow to infinity, subnormal numbers and NaN are outside the model.
\<close>

type_synonym f32 = rat
type_synonym f64 = rat

definition pow2 :: "int \<Rightarrow> rat" where
  "pow2 e = (if 0 \<le> e then 2 ^ nat e else 1 / 2 ^ nat (- e))"

text \<open>\<open>ilog2 x\<close> is the binary exponent of a positive \<open>x\<close>: \<open>2^e \<le> x < 2^(e+1)\<close>.\<close>

definition ilog2 :: "rat \<Rightarrow> int" where
  "ilog2 x = (if 1 \<le> x then bitlen \<lfloor>x\<rfloor> - 1 else - bitlen (\<lceil>1 / x\<rceil> - 1))"

definition round_even :: "rat \<Rightarrow> int" where
  "round_even q =
     (let f = \<lfloor>q\<rfloor>; d = q - of_int f
      in if d < 1 / 2 then f
         else if 1 / 2 < d then f + 1
         else if even f then f else f + 1)"

definition fp_round :: "nat \<Rightarrow> rat \<Rightarrow> rat" where
  "fp_round p x =
     (if x = 0 then 0
      else let u = pow2 (ilog2 \<bar>x\<bar> - (int p - 1))
           in of_int (round_even (x / u)) * u)"

definition f32r :: "rat \<Rightarrow> f32" where
  "f32r x = fp_round 24 x"

definition f64r :: "rat \<Rightarrow> f64" where
  "f64r x = fp_round 53 x"

text \<open>Conversion of a floating-point value to \<^verbatim>\<open>int\<close> truncates towards zero.\<close>

definition to_int :: "rat \<Rightarrow> int" where
  "to_int x = (if 0 \<le> x then \<lfloor>x\<rfloor> else \<lceil>x\<rceil>)"

section \<open>The sink: \<^verbatim>\<open>base_sink_c_impl\<close>\<close>

subsection \<open>Constants declared in headers\<close>

text \<open>
  Modelled from the spec: the \<^verbatim>\<open>SETTING_*\<close> enumerators are declared in
  \<^verbatim>\<open>base_sink_c_impl.h\<close>, which is not part of the sources at hand. The spec names six
  change categories (dimensions, power-range, frequency-range, fft-window, fft-size,
  render-options) kept as bits of one \<^verbatim>\<open>uint32_t\<close>; they are given distinct single bits.
\<close>

definition SETTING_DIMENSIONS :: "32 word" where "SETTING_DIMENSIONS = 1"
definition SETTING_POWER_RANGE :: "32 word" where "SETTING_POWER_RANGE = 2"
definition SETTING_FREQUENCY_RANGE :: "32 word" where "SETTING_FREQUENCY_RANGE = 4"
definition SETTING_FFT_WINDOW :: "32 word" where "SETTING_FFT_WINDOW = 8"
definition SETTING_RENDER_OPTIONS :: "32 word" where "SETTING_RENDER_OPTIONS = 16"
definition SETTING_FFT_SIZE :: "32 word" where "SETTING_FFT_SIZE = 32"

text \<open>
  Modelled from the spec: \<^verbatim>\<open>enum fosphor_render_option\<close> is declared in
  \<^verbatim>\<open>fosphor/fosphor.h\<close>, not part of the sources at hand. The spec lists the render-option
  flags (waterfall, histogram, live, max-hold, power-labels, time-labels,
  frequency-labels, color-scale, channel-overlay); they are given distinct single bits.
\<close>

definition FRO_LIVE :: "32 word" where "FRO_LIVE = 1"
definition FRO_MAX_HOLD :: "32 word" where "FRO_MAX_HOLD = 2"
definition FRO_HISTO :: "32 word" where "FRO_HISTO = 4"
definition FRO_WATERFALL :: "32 word" where "FRO_WATERFALL = 8"
definition FRO_LABEL_FREQ :: "32 word" where "FRO_LABEL_FREQ = 16"
definition FRO_LABEL_PWR :: "32 word" where "FRO_LABEL_PWR = 32"
definition FRO_LABEL_TIME :: "32 word" where "FRO_LABEL_TIME = 64"
definition FRO_CHANNELS :: "32 word" where "FRO_CHANNELS = 128"
definition FRO_COLOR_SCALE :: "32 word" where "FRO_COLOR_SCALE = 256"

text \<open>\<^verbatim>\<open>const int base_sink_c_impl::k_db_per_div[] = {1, 2, 5, 10, 20}\<close>\<close>

definition k_db_per_div :: "int list" where
  "k_db_per_div = [1, 2, 5, 10, 20]"

text \<open>A read \<^verbatim>\<open>k_db_per_div[i]\<close>; outside the array it has no defined value.\<close>

definition k_db_per_div_at :: "int \<Rightarrow> int option" where
  "k_db_per_div_at i =
     (if 0 \<le> i \<and> i < int (length k_db_per_div) then Some (k_db_per_div ! nat i) else None)"

subsection \<open>State\<close>

record fosphor_channel =
  ch_enabled :: bool
  ch_center :: f32
  ch_width :: f32

text \<open>
  \<^verbatim>\<open>struct fosphor_render\<close>: the fields the sink and the compositor read or write. The
  fields \<open>x0 \<dots> x_label\<close> are the private \<^verbatim>\<open>_x[0]\<close>, \<^verbatim>\<open>_x[1]\<close>, \<^verbatim>\<open>_y_wf[]\<close>, \<^verbatim>\<open>_y_histo[]\<close>,
  \<^verbatim>\<open>_y_histo_div\<close>, \<^verbatim>\<open>_x_label\<close> computed by \<^verbatim>\<open>fosphor_render_refresh\<close>.
\<close>

record fosphor_render =
  pos_x :: int
  width :: int
  height :: int
  options :: "32 word"
  histo_wf_ratio :: f32
  freq_center :: f32
  freq_span :: f32
  channels :: "fosphor_channel list"
  x0 :: f32
  x1 :: f32
  y_wf0 :: f32
  y_wf1 :: f32
  y_histo0 :: f32
  y_histo1 :: f32
  y_histo_div :: f32
  x_label :: f32

text \<open>
  Modelled from the spec: the sample FIFO (\<^verbatim>\<open>fifo.h\<close>) is not part of the sources at
  hand. It is a ring buffer of power-of-two capacity \<open>d_len\<close> with a read cursor and a
  write cursor; \<open>used\<close> counts the unread elements, \<open>read_max_size\<close> is the contiguous run
  from the read cursor to the wrap point, \<open>read_discard\<close> advances the read cursor.
\<close>

record fifo =
  d_len :: int
  d_rp :: int
  d_wp :: int

definition used :: "fifo \<Rightarrow> int" where
  "used f = (d_wp f - d_rp f) mod d_len f"

definition read_max_size :: "fifo \<Rightarrow> int" where
  "read_max_size f = d_len f - d_rp f"

definition read_discard :: "int \<Rightarrow> fifo \<Rightarrow> fifo" where
  "read_discard n f = f\<lparr>d_rp := (d_rp f + n) mod d_len f\<rparr>"

datatype pane = Main_pane | Zoom_pane

text \<open>
  Calls to the compute backend and to the graphics context, in the order made. A process
  call carries the read cursor its data pointer is taken at and its length; the window
  calls carry the FFT size the window is built for.
\<close>

datatype call =
    Glctx_update
  | Gl_projection int int
  | Fosphor_set_power_range int int
  | Fosphor_set_frequency_range f64 f64
  | Fosphor_set_fft_window int
  | Fosphor_fft_len_set int
  | Fosphor_render_refresh pane
  | Fosphor_process int int
  | Gl_clear
  | Fosphor_draw pane
  | Glctx_swap
  | Sleep_ms nat

text \<open>
  The state of \<^verbatim>\<open>base_sink_c_impl\<close>, with the calls it has made. The member declarations are
  in \<^verbatim>\<open>base_sink_c_impl.h\<close>; the types are those of the initialisers and literals of the
  constructor and of \<^verbatim>\<open>execute_ui_action\<close>: \<^verbatim>\<open>double\<close> for the zoom centre and width,
  \<^verbatim>\<open>float\<close> for the ratio, \<^verbatim>\<open>int\<close> otherwise. The \<^verbatim>\<open>int\<close> members of the sink are
  unbounded integers: nothing in the sink depends on their overflow. The window kind
  \<^verbatim>\<open>d_fft_window\<close> and the worker thread are left out.
\<close>

record sink =
  d_db_ref :: int
  d_db_per_div_idx :: int
  d_zoom_enabled :: bool
  d_zoom_center :: f64
  d_zoom_width :: f64
  d_ratio :: f32
  d_frozen :: bool
  d_active :: bool
  d_visible :: bool
  d_frequency_center :: f64
  d_frequency_span :: f64
  d_fft_size :: int
  d_width :: int
  d_height :: int
  d_settings_changed :: "32 word"
  d_fifo :: fifo
  d_render_main :: fosphor_render
  d_render_zoom :: fosphor_render
  calls :: "call list"

text \<open>
  The constructor. It leaves \<open>d_width\<close>, \<open>d_height\<close> and \<open>d_settings_changed\<close> without an
  initialiser, and \<^verbatim>\<open>fosphor_render_defaults\<close> is external: these are parameters.
\<close>

definition base_sink_c_impl :: "int \<Rightarrow> int \<Rightarrow> 32 word \<Rightarrow> fosphor_render \<Rightarrow> sink" where
  "base_sink_c_impl w h sc rd =
     \<lparr> d_db_ref = 0, d_db_per_div_idx = 3,
       d_zoom_enabled = False, d_zoom_center = f64r (1 / 2), d_zoom_width = f64r (1 / 5),
       d_ratio = f32r (7 / 20), d_frozen = False, d_active = False, d_visible = False,
       d_frequency_center = 0, d_frequency_span = 0,
       d_fft_size = 1024,
       d_width = w, d_height = h, d_settings_changed = sc,
       d_fifo = \<lparr> d_len = 2 * 1024 * 1024, d_rp = 0, d_wp = 0 \<rparr>,
       d_render_main = rd,
       d_render_zoom = rd\<lparr>options := options rd AND NOT (FRO_LABEL_PWR OR FRO_LABEL_TIME)\<rparr>,
       calls = [] \<rparr>"

subsection \<open>The settings register\<close>

definition settings_mark_changed :: "32 word \<Rightarrow> sink \<Rightarrow> sink" where
  "settings_mark_changed setting s =
     s\<lparr>d_settings_changed := d_settings_changed s OR setting\<rparr>"

definition settings_get_and_reset_changed :: "sink \<Rightarrow> 32 word \<times> sink" where
  "settings_get_and_reset_changed s = (d_settings_changed s, s\<lparr>d_settings_changed := 0\<rparr>)"

subsection \<open>UI actions\<close>

datatype ui_action_t =
    DB_PER_DIV_UP | DB_PER_DIV_DOWN | REF_UP | REF_DOWN
  | ZOOM_TOGGLE | ZOOM_WIDTH_UP | ZOOM_WIDTH_DOWN | ZOOM_CENTER_UP | ZOOM_CENTER_DOWN
  | RATIO_UP | RATIO_DOWN | FREEZE_TOGGLE

text \<open>
  The \<^verbatim>\<open>switch\<close> of \<^verbatim>\<open>execute_ui_action\<close>. \<open>None\<close> is a read of \<open>k_db_per_div\<close> outside the
  array.
\<close>

fun ui_switch :: "ui_action_t \<Rightarrow> sink \<Rightarrow> sink option" where
  "ui_switch DB_PER_DIV_UP s =
     Some (if d_db_per_div_idx s < 4 then s\<lparr>d_db_per_div_idx := d_db_per_div_idx s + 1\<rparr> else s)"
| "ui_switch DB_PER_DIV_DOWN s =
     Some (if d_db_per_div_idx s > 0 then s\<lparr>d_db_per_div_idx := d_db_per_div_idx s - 1\<rparr> else s)"
| "ui_switch REF_UP s =
     (case k_db_per_div_at (d_db_per_div_idx s) of
        None \<Rightarrow> None
      | Some k \<Rightarrow> Some (s\<lparr>d_db_ref := d_db_ref s + k\<rparr>))"
| "ui_switch REF_DOWN s =
     (case k_db_per_div_at (d_db_per_div_idx s) of
        None \<Rightarrow> None
      | Some k \<Rightarrow> Some (s\<lparr>d_db_ref := d_db_ref s - k\<rparr>))"
| "ui_switch ZOOM_TOGGLE s = Some (s\<lparr>d_zoom_enabled := \<not> d_zoom_enabled s\<rparr>)"
| "ui_switch ZOOM_WIDTH_UP s =
     Some (if d_zoom_enabled s then s\<lparr>d_zoom_width := f64r (d_zoom_width s * 2)\<rparr> else s)"
| "ui_switch ZOOM_WIDTH_DOWN s =
     Some (if d_zoom_enabled s then s\<lparr>d_zoom_width := f64r (d_zoom_width s / 2)\<rparr> else s)"
| "ui_switch ZOOM_CENTER_UP s =
     Some (if d_zoom_enabled s
           then s\<lparr>d_zoom_center := f64r (d_zoom_center s + f64r (d_zoom_width s / 8))\<rparr> else s)"
| "ui_switch ZOOM_CENTER_DOWN s =
     Some (if d_zoom_enabled s
           then s\<lparr>d_zoom_center := f64r (d_zoom_center s - f64r (d_zoom_width s / 8))\<rparr> else s)"
| "ui_switch RATIO_UP s =
     Some (if d_ratio s < f32r (4 / 5) then s\<lparr>d_ratio := f32r (d_ratio s + f32r (1 / 20))\<rparr> else s)"
| "ui_switch RATIO_DOWN s =
     Some (if d_ratio s > f32r (1 / 5) then s\<lparr>d_ratio := f32r (d_ratio s - f32r (1 / 20))\<rparr> else s)"
| "ui_switch FREEZE_TOGGLE s = Some (s\<lparr>d_frozen := \<not> d_frozen s\<rparr>)"

definition execute_ui_action :: "ui_action_t \<Rightarrow> sink \<Rightarrow> sink option" where
  "execute_ui_action action s =
     (case ui_switch action s of
        None \<Rightarrow> None
      | Some s' \<Rightarrow>
          Some (settings_mark_changed (SETTING_POWER_RANGE OR SETTING_RENDER_OPTIONS) s'))"

text \<open>A sequence of actions, stopping at the first undefined read.\<close>

fun execute_ui_actions :: "ui_action_t list \<Rightarrow> sink \<Rightarrow> sink option" where
  "execute_ui_actions [] s = Some s"
| "execute_ui_actions (a # as) s =
     (case execute_ui_action a s of None \<Rightarrow> None | Some s' \<Rightarrow> execute_ui_actions as s')"

subsection \<open>Configuration setters\<close>

definition set_fft_size :: "int \<Rightarrow> sink \<Rightarrow> sink" where
  "set_fft_size sz s =
     (if sz = d_fft_size s then s
      else if sz = 512 \<or> sz = 1024 \<or> sz = 2048 \<or> sz = 4096 \<or> sz = 8192
              \<or> sz = 16384 \<or> sz = 32768
      then settings_mark_changed SETTING_FFT_SIZE (s\<lparr>d_fft_size := sz\<rparr>)
      else s)"

definition cb_reshape :: "int \<Rightarrow> int \<Rightarrow> sink \<Rightarrow> sink" where
  "cb_reshape w h s = settings_mark_changed SETTING_DIMENSIONS (s\<lparr>d_width := w, d_height := h\<rparr>)"

subsection \<open>Applying settings and rendering\<close>

definition log_calls :: "call list \<Rightarrow> sink \<Rightarrow> sink" where
  "log_calls cs s = s\<lparr>calls := calls s @ cs\<rparr>"

text \<open>
  The last block of \<^verbatim>\<open>settings_apply\<close>: the pane layout. \<^verbatim>\<open>fosphor_render_refresh\<close> is
  external; it is recorded as a call and its effect on the private fields is left out.
\<close>

definition layout :: "sink \<Rightarrow> sink" where
  "layout s =
     (let a = to_int (f32r (f32r (of_int (d_width s)) * f32r (13 / 20)));
          m = d_render_main s;
          z = d_render_zoom s;
          m1 = (if d_zoom_enabled s
                then m\<lparr>width := a, options := (options m OR FRO_CHANNELS) AND NOT FRO_COLOR_SCALE\<rparr>
                else m\<lparr>width := d_width s,
                       options := (options m AND NOT FRO_CHANNELS) OR FRO_COLOR_SCALE\<rparr>);
          z1 = (if d_zoom_enabled s
                then z\<lparr>pos_x := a - 10, width := d_width s - a + 10\<rparr>
                else z);
          m2 = m1\<lparr>height := d_height s, histo_wf_ratio := d_ratio s,
                   channels := (channels m1)
                     [0 := \<lparr>ch_enabled = d_zoom_enabled s,
                            ch_center = f32r (d_zoom_center s),
                            ch_width = f32r (d_zoom_width s)\<rparr>]\<rparr>;
          z2 = z1\<lparr>height := d_height s, histo_wf_ratio := d_ratio s,
                   freq_center := f32r (d_zoom_center s),
                   freq_span := f32r (d_zoom_width s)\<rparr>
      in log_calls [Fosphor_render_refresh Main_pane, Fosphor_render_refresh Zoom_pane]
           (s\<lparr>d_render_main := m2, d_render_zoom := z2\<rparr>))"

definition settings_apply :: "32 word \<Rightarrow> sink \<Rightarrow> sink option" where
  "settings_apply settings s =
     (let s1 = (if settings AND SETTING_DIMENSIONS \<noteq> 0
                then log_calls [Glctx_update, Gl_projection (d_width s) (d_height s)] s
                else s)
      in case (if settings AND SETTING_POWER_RANGE \<noteq> 0
               then (case k_db_per_div_at (d_db_per_div_idx s1) of
                       None \<Rightarrow> None
                     | Some k \<Rightarrow> Some (log_calls [Fosphor_set_power_range (d_db_ref s1) k] s1))
               else Some s1) of
           None \<Rightarrow> None
         | Some s2 \<Rightarrow>
             (let s3 = (if settings AND SETTING_FREQUENCY_RANGE \<noteq> 0
                        then log_calls [Fosphor_set_frequency_range
                                          (d_frequency_center s2) (d_frequency_span s2)] s2
                        else s2);
                  s4 = (if settings AND SETTING_FFT_WINDOW \<noteq> 0
                        then log_calls [Fosphor_set_fft_window (d_fft_size s3)] s3
                        else s3);
                  s5 = (if settings AND SETTING_FFT_SIZE \<noteq> 0
                        then log_calls [Fosphor_fft_len_set (d_fft_size s4),
                                        Fosphor_set_fft_window (d_fft_size s4)] s4
                        else s4)
              in Some (if settings AND (SETTING_DIMENSIONS OR SETTING_RENDER_OPTIONS) \<noteq> 0
                       then layout s5 else s5)))"

text \<open>
  The length of one sub-batch in \<^verbatim>\<open>render\<close>, with \<^verbatim>\<open>batch_mult = 16\<close> and
  \<^verbatim>\<open>batch_max = 1024\<close>: what is left, at most the contiguous run, rounded by the mask
  \<^verbatim>\<open>~((batch_mult * fft_len) - 1)\<close>, at most \<^verbatim>\<open>batch_max * fft_len\<close>.
\<close>

definition batch_len :: "int \<Rightarrow> int \<Rightarrow> fifo \<Rightarrow> int" where
  "batch_len fft_len tot_len f =
     (let len0 = (if tot_len > read_max_size f then read_max_size f else tot_len);
          len1 = len0 AND NOT (16 * fft_len - 1)
      in if len1 > 1024 * fft_len then 1024 * fft_len else len1)"

text \<open>
  The batching loop of \<^verbatim>\<open>render\<close>; the first argument counts the iterations left of
  \<^verbatim>\<open>max_iter = 8\<close>. A process call is recorded with the read cursor it peeks at and its
  length.
\<close>

fun render_loop :: "nat \<Rightarrow> int \<Rightarrow> int \<Rightarrow> sink \<Rightarrow> sink" where
  "render_loop 0 fft_len tot_len s = s"
| "render_loop (Suc k) fft_len tot_len s =
     (if tot_len = 0 then s
      else let len = batch_len fft_len tot_len (d_fifo s)
           in if len = 0 then s
              else let s1 = (if \<not> d_frozen s
                             then log_calls [Fosphor_process (d_rp (d_fifo s)) len] s
                             else s)
                   in render_loop k fft_len (tot_len - len)
                        (s1\<lparr>d_fifo := read_discard len (d_fifo s1)\<rparr>))"

definition render :: "sink \<Rightarrow> sink option" where
  "render s =
     (let fft_len = d_fft_size s;
          (v, s0) = settings_get_and_reset_changed s
      in case settings_apply v s0 of
           None \<Rightarrow> None
         | Some s1 \<Rightarrow>
             (let s2 = render_loop 8 fft_len (used (d_fifo s1)) s1
              in Some (if d_visible s2
                       then log_calls ([Gl_clear, Fosphor_draw Main_pane]
                              @ (if d_zoom_enabled s2 then [Fosphor_draw Zoom_pane] else [])
                              @ [Glctx_swap]) s2
                       else log_calls [Sleep_ms 10] s2)))"

text \<open>The process calls among the calls made so far.\<close>

fun is_process :: "call \<Rightarrow> bool" where
  "is_process (Fosphor_process rp len) = True"
| "is_process c = False"

definition process_calls :: "sink \<Rightarrow> call list" where
  "process_calls s = filter is_process (calls s)"

subsection \<open>The pane-height ratio\<close>

text \<open>
  The single-precision values the ratio takes, and the two guarded steps of \<open>RATIO_UP\<close> and
  \<open>RATIO_DOWN\<close> on the ratio alone.
\<close>

definition ratio_values :: "f32 list" where
  "ratio_values =
     [6710885 / 33554432, 3355443 / 16777216, 16777213 / 67108864, 16777215 / 67108864,
      1258291 / 4194304, 10066329 / 33554432, 5872025 / 16777216, 11744051 / 33554432,
      3355443 / 8388608, 13421773 / 33554432, 7549747 / 16777216, 15099495 / 33554432,
      1 / 2, 9227469 / 16777216, 5033165 / 8388608, 10905191 / 16777216,
      2936013 / 4194304, 12582913 / 16777216, 6710887 / 8388608]"

definition ratio_up :: "f32 \<Rightarrow> f32" where
  "ratio_up r = (if r < f32r (4 / 5) then f32r (r + f32r (1 / 20)) else r)"

definition ratio_down :: "f32 \<Rightarrow> f32" where
  "ratio_down r = (if r > f32r (1 / 5) then f32r (r - f32r (1 / 20)) else r)"

definition ratio_ok :: "sink \<Rightarrow> bool" where
  "ratio_ok s = (d_ratio s \<in> set ratio_values)"

section \<open>The compositor: \<^verbatim>\<open>fosphor_gl_draw\<close>\<close>

text \<open>
  \<^verbatim>\<open>struct fosphor\<close> (\<^verbatim>\<open>private.h\<close>): the fields the modelled parts of the draw read, with
  \<^verbatim>\<open>power.db_ref\<close> and \<^verbatim>\<open>power.db_per_div\<close> flattened.
\<close>

record fosphor =
  fft_len :: int
  power_db_ref :: int
  power_db_per_div :: int

text \<open>
  What \<^verbatim>\<open>fosphor_gl_draw\<close> emits, as far as modelled: a line between two vertices, a
  right-aligned \<^verbatim>\<open>"%d"\<close> label at a position, a \<^verbatim>\<open>GL_LINE_STRIP\<close> over a vertex range
  (first, count), a colour with its opacity, and a rectangle \<open>[x\<^sub>a, x\<^sub>b] \<times> [y\<^sub>0, y\<^sub>1]\<close> filled with
  the current colour.
\<close>

datatype gl_call =
    Gl_line f32 f32 f32 f32
  | Glf_printf_d f32 f32 int
  | Gl_draw_arrays int int
  | Gl_color4f f32 f32 f32 f32
  | Gl_quad f32 f32 f32 f32

subsection \<open>Power grid\<close>

text \<open>
  The first loop of the grid block, \<^verbatim>\<open>for (i=0; i<11; i++)\<close>: row \<open>i\<close> is the line at
  \<^verbatim>\<open>_y_histo[0] + i * _y_histo_div\<close> and, with \<^verbatim>\<open>FRO_LABEL_PWR\<close>, its label. The vertical
  frequency gridlines of the second loop depend on the external axis builder and are
  left out.
\<close>

definition grid_y :: "fosphor_render \<Rightarrow> nat \<Rightarrow> f32" where
  "grid_y r i = f32r (y_histo0 r + f32r (f32r (of_nat i) * y_histo_div r))"

definition grid_row :: "fosphor \<Rightarrow> fosphor_render \<Rightarrow> nat \<Rightarrow> gl_call list" where
  "grid_row self r i =
     (let yv = grid_y r i
      in Gl_line (f32r (x0 r + 1 / 2)) (f32r (yv + 1 / 2)) (f32r (x1 r - 1 / 2)) (f32r (yv + 1 / 2))
         # (if options r AND FRO_LABEL_PWR \<noteq> 0
            then [Glf_printf_d (x_label r) yv
                    (power_db_ref self - (10 - int i) * power_db_per_div self)]
            else []))"

definition draw_power_grid :: "fosphor \<Rightarrow> fosphor_render \<Rightarrow> gl_call list" where
  "draw_power_grid self r =
     (if options r AND (FRO_LIVE OR FRO_MAX_HOLD OR FRO_HISTO) \<noteq> 0
      then concat (map (grid_row self r) [0..<11])
      else [])"

text \<open>The heights of the lines drawn, and the labels printed with their heights.\<close>

fun gridline_ys :: "gl_call list \<Rightarrow> f32 list" where
  "gridline_ys [] = []"
| "gridline_ys (Gl_line xa ya xb yb # cs) = ya # gridline_ys cs"
| "gridline_ys (c # cs) = gridline_ys cs"

fun power_labels :: "gl_call list \<Rightarrow> (f32 \<times> int) list" where
  "power_labels [] = []"
| "power_labels (Glf_printf_d x y v # cs) = (y, v) # power_labels cs"
| "power_labels (c # cs) = power_labels cs"

subsection \<open>Spectrum traces\<close>

text \<open>
  A C \<^verbatim>\<open>int\<close> holds the values from \<open>-2\<^sup>3\<^sup>1\<close> to \<open>2\<^sup>3\<^sup>1 - 1\<close>. The spectrum block converts
  floating-point values to \<^verbatim>\<open>int\<close> and computes with them; a conversion or an \<^verbatim>\<open>int\<close>
  operation whose result is outside this range has no defined value, which is \<open>None\<close>.
\<close>

definition INT_MIN :: int where
  "INT_MIN = - (2 ^ 31)"

definition INT_MAX :: int where
  "INT_MAX = 2 ^ 31 - 1"

definition int_result :: "int \<Rightarrow> int option" where
  "int_result i = (if INT_MIN \<le> i \<and> i \<le> INT_MAX then Some i else None)"

definition ceilf :: "f32 \<Rightarrow> f32" where
  "ceilf x = of_int \<lceil>x\<rceil>"

definition floorf :: "f32 \<Rightarrow> f32" where
  "floorf x = of_int \<lfloor>x\<rfloor>"

text \<open>
  The end points \<^verbatim>\<open>idx[0]\<close>, \<^verbatim>\<open>idx[1]\<close> of the spectrum block: \<^verbatim>\<open>ceilf\<close> and \<^verbatim>\<open>floorf\<close> of the
  single-precision products, converted to \<^verbatim>\<open>int\<close>, then the two one-sided clamps.
\<close>

definition bin_lo :: "fosphor \<Rightarrow> fosphor_render \<Rightarrow> f32" where
  "bin_lo self r =
     f32r (f32r (of_int (fft_len self)) * f32r (freq_center r - f32r (freq_span r / 2)))"

definition bin_hi :: "fosphor \<Rightarrow> fosphor_render \<Rightarrow> f32" where
  "bin_hi self r =
     f32r (f32r (of_int (fft_len self)) * f32r (freq_center r + f32r (freq_span r / 2)))"

definition spectrum_range :: "fosphor \<Rightarrow> fosphor_render \<Rightarrow> (int \<times> int) option" where
  "spectrum_range self r =
     (case int_result (to_int (ceilf (bin_lo self r))) of
        None \<Rightarrow> None
      | Some i0 \<Rightarrow>
          (case int_result (to_int (floorf (bin_hi self r))) of
             None \<Rightarrow> None
           | Some i1 \<Rightarrow>
               (let idx0 = (if i0 < 1 then 1 else i0)
                in if i1 \<ge> fft_len self
                   then (case int_result (fft_len self - 1) of
                           None \<Rightarrow> None
                         | Some idx1 \<Rightarrow> Some (idx0, idx1))
                   else Some (idx0, i1))))"

text \<open>
  The two line strips, with \<^verbatim>\<open>len = idx[1] - idx[0] + 1\<close>; the max-hold strip starts at
  \<^verbatim>\<open>idx[0] + self->fft_len\<close>. The transformations and the colours are left out.
\<close>

definition spectrum_len :: "int \<Rightarrow> int \<Rightarrow> int option" where
  "spectrum_len idx0 idx1 =
     (case int_result (idx1 - idx0) of None \<Rightarrow> None | Some d \<Rightarrow> int_result (d + 1))"

definition draw_spectrum :: "fosphor \<Rightarrow> fosphor_render \<Rightarrow> gl_call list option" where
  "draw_spectrum self r =
     (if options r AND (FRO_LIVE OR FRO_MAX_HOLD) \<noteq> 0
      then (case spectrum_range self r of
              None \<Rightarrow> None
            | Some (idx0, idx1) \<Rightarrow>
                (case spectrum_len idx0 idx1 of
                   None \<Rightarrow> None
                 | Some len \<Rightarrow>
                     (let live = (if options r AND FRO_LIVE \<noteq> 0
                                  then [Gl_draw_arrays idx0 len] else [])
                      in if options r AND FRO_MAX_HOLD \<noteq> 0
                         then (case int_result (idx0 + fft_len self) of
                                 None \<Rightarrow> None
                               | Some first \<Rightarrow> Some (live @ [Gl_draw_arrays first len]))
                         else Some live)))
      else Some [])"

text \<open>The vertices a line strip runs over (none when the count is not positive).\<close>

fun drawn_vertices :: "gl_call \<Rightarrow> int set" where
  "drawn_vertices (Gl_draw_arrays first cnt) = {first ..< first + cnt}"
| "drawn_vertices c = {}"

subsection \<open>Channel overlay\<close>

text \<open>
  A boundary point \<^verbatim>\<open>pt[k]\<close> is a pair of its direction (\<open>+1\<close> where a channel starts, \<open>-1\<close>
  where it ends) and its position; a band is one drawn sub-interval: the positions
  \<^verbatim>\<open>pt[i-1].pos\<close> and \<^verbatim>\<open>pt[i].pos\<close> and the counter \<open>l\<close> it is drawn with.
\<close>

type_synonym pt = "int \<times> f32"
type_synonym band = "f32 \<times> f32 \<times> int"

text \<open>The edge clamp \<^verbatim>\<open>(f > 0.0f) ? (f < 1.0f ? f : 1.0f) : 0.0f\<close> and the two edges of a channel.\<close>

definition clamp01 :: "f32 \<Rightarrow> f32" where
  "clamp01 f = (if f > 0 then (if f < 1 then f else 1) else 0)"

definition channel_lo :: "fosphor_channel \<Rightarrow> f32" where
  "channel_lo c = clamp01 (f32r (ch_center c - f32r (ch_width c / 2)))"

definition channel_hi :: "fosphor_channel \<Rightarrow> f32" where
  "channel_hi c = clamp01 (f32r (ch_center c + f32r (ch_width c / 2)))"

text \<open>
  The points generated from the channels: the two fixed points \<^verbatim>\<open>pt[0]\<close>, \<^verbatim>\<open>pt[1]\<close>, then a
  start and an end point for every enabled channel, in array order.
\<close>

definition channel_edges :: "fosphor_channel list \<Rightarrow> pt list" where
  "channel_edges cs =
     concat (map (\<lambda>c. if ch_enabled c then [(1, channel_lo c), (- 1, channel_hi c)] else []) cs)"

definition channel_points :: "fosphor_channel list \<Rightarrow> pt list" where
  "channel_points cs = [(- 1, 0), (1, 1)] @ channel_edges cs"

text \<open>
  The inner loop over \<^verbatim>\<open>pt[i..n)\<close>, \<^verbatim>\<open>mi = i; for (j=i+1; j<n; j++) if (pt[j].pos < pt[mi].pos)
  mi = j\<close>, with indices relative to \<open>i\<close>.
\<close>

definition min_index :: "pt list \<Rightarrow> nat" where
  "min_index ps = fold (\<lambda>j mi. if snd (ps ! j) < snd (ps ! mi) then j else mi) [1..<length ps] 0"

text \<open>
  The outer loop, "sort and draw at the same time". \<open>sweep prev l rest\<close> is the loop at
  index \<open>i\<close> with \<open>prev = pt[i-1]\<close>, the counter \<open>l\<close> and \<open>rest = pt[i..n)\<close>: the smallest
  position is swapped to the front, the band between \<open>prev\<close> and it is drawn when the
  positions differ and \<open>l \<noteq> 0\<close>, then \<open>l\<close> takes its direction.
\<close>

function sweep :: "pt \<Rightarrow> int \<Rightarrow> pt list \<Rightarrow> band list" where
  "sweep prev l [] = []"
| "sweep prev l (p # ps) =
     (let mi = min_index (p # ps);
          cur = (p # ps) ! mi;
          rest = tl ((p # ps)[mi := p])
      in (if snd prev \<noteq> snd cur \<and> l \<noteq> 0 then [(snd prev, snd cur, l)] else [])
         @ sweep cur (l + fst cur) rest)"
  by pat_completeness auto
termination
  by (relation "measure (\<lambda>(prev, l, ps). length ps)") (auto split: nat.splits)

text \<open>The bands of a pane: nothing when no channel is enabled (\<^verbatim>\<open>n > 2\<close> fails).\<close>

definition channel_bands :: "fosphor_render \<Rightarrow> band list" where
  "channel_bands r =
     (let pt = channel_points (channels r)
      in if length pt > 2 then sweep (hd pt) (fst (hd pt)) (tl pt) else [])"

text \<open>
  The colour of a band: \<^verbatim>\<open>glColor4f(0, 0, 0, 0.5f)\<close> for \<open>l < 0\<close>, else
  \<^verbatim>\<open>glColor4f(1, 1, 1, 0.2f - 0.2f / (1 + l))\<close>.
\<close>

definition overlay_alpha :: "int \<Rightarrow> f32" where
  "overlay_alpha l = f32r (f32r (1 / 5) - f32r (f32r (1 / 5) / f32r (of_int (1 + l))))"

definition band_colour :: "int \<Rightarrow> f32 \<times> f32 \<times> f32 \<times> f32" where
  "band_colour l = (if l < 0 then (0, 0, 0, f32r (1 / 2)) else (1, 1, 1, overlay_alpha l))"

definition band_calls :: "fosphor_render \<Rightarrow> band \<Rightarrow> gl_call list" where
  "band_calls r bd =
     (case bd of (a, b, l) \<Rightarrow>
        (case band_colour l of (cr, cg, cb, ca) \<Rightarrow> Gl_color4f cr cg cb ca)
        # (if options r AND FRO_WATERFALL \<noteq> 0
           then [Gl_quad b a (y_histo0 r) (y_histo1 r)] else [])
        @ (if options r AND (FRO_LIVE OR FRO_MAX_HOLD OR FRO_HISTO) \<noteq> 0
           then [Gl_quad b a (y_wf0 r) (y_wf1 r)] else []))"

definition draw_channels :: "fosphor_render \<Rightarrow> gl_call list" where
  "draw_channels r =
     (if options r AND FRO_CHANNELS \<noteq> 0
      then concat (map (band_calls r) (channel_bands r))
      else [])"

text \<open>
  The colour drawn over a position \<open>x\<close> of the unit interval, if any; the coverage depth
  of \<open>x\<close>, the number of enabled channels whose clamped interval contains it; and the sum
  of the directions of the points at or before \<open>x\<close>.
\<close>

definition overlay_shade :: "fosphor_render \<Rightarrow> rat \<Rightarrow> (f32 \<times> f32 \<times> f32 \<times> f32) option" where
  "overlay_shade r x =
     (if options r AND FRO_CHANNELS \<noteq> 0
      then map_option (\<lambda>(a, b, l). band_colour l)
             (find (\<lambda>(a, b, l). a \<le> x \<and> x < b) (channel_bands r))
      else None)"

definition depth :: "fosphor_channel list \<Rightarrow> rat \<Rightarrow> nat" where
  "depth cs x =
     length (filter (\<lambda>c. ch_enabled c \<and> channel_lo c \<le> x \<and> x < channel_hi c) cs)"

definition dir_sum :: "f32 \<Rightarrow> pt list \<Rightarrow> int" where
  "dir_sum x ps = sum_list (map fst (filter (\<lambda>q. snd q \<le> x) ps))"

section \<open>Concrete instances\<close>

text \<open>An instance used to evaluate the model: a 1440 by 900 surface, nothing pending.\<close>

definition example_render :: fosphor_render where
  "example_render =
     \<lparr> pos_x = 0, width = 1024, height = 1024,
       options = FRO_LIVE OR FRO_MAX_HOLD OR FRO_HISTO OR FRO_WATERFALL OR FRO_LABEL_FREQ
                 OR FRO_LABEL_PWR OR FRO_LABEL_TIME OR FRO_COLOR_SCALE,
       histo_wf_ratio = 1 / 2, freq_center = 1 / 2, freq_span = 1,
       channels = replicate 8 \<lparr>ch_enabled = False, ch_center = 1 / 2, ch_width = 1 / 5\<rparr>,
       x0 = 0, x1 = 1024, y_wf0 = 512, y_wf1 = 1024, y_histo0 = 0, y_histo1 = 512,
       y_histo_div = 51, x_label = 0 \<rparr>"

definition example_sink :: sink where
  "example_sink = base_sink_c_impl 1440 900 0 example_render"

definition example_fosphor :: fosphor where
  "example_fosphor = \<lparr> fft_len = 1024, power_db_ref = 0, power_db_per_div = 10 \<rparr>"

text \<open>
  The zoom pane as the compositor gets it: after a list of UI actions on this sink and one
  \<^verbatim>\<open>render\<close> iteration, which applies the pending settings.
\<close>

definition zoom_pane_after :: "ui_action_t list \<Rightarrow> fosphor_render option" where
  "zoom_pane_after as =
     (case execute_ui_actions as example_sink of
        None \<Rightarrow> None
      | Some s \<Rightarrow> map_option d_render_zoom (render s))"

text \<open>The same sink holding one chunk of \<open>16 \<times> 1024\<close> samples at the start of the buffer.\<close>

definition example_sink_chunk :: "bool \<Rightarrow> sink" where
  "example_sink_chunk fr =
     example_sink\<lparr>d_frozen := fr, d_fifo := \<lparr>d_len = 2 * 1024 * 1024, d_rp = 0, d_wp = 16 * 1024\<rparr>\<rparr>"


text \<open>
  Two enabled channels with centre and width \<open>(0.2, 0.2)\<close> and \<open>(0.3, 0.2)\<close>, the intervals
  \<open>[0.1, 0.3]\<close> and \<open>[0.2, 0.4]\<close>, on a pane with the channel overlay enabled; and a pane with
  the overlay enabled and no channel enabled.
\<close>

definition two_channels :: "fosphor_channel list" where
  "two_channels =
     [\<lparr>ch_enabled = True, ch_center = f32r (1 / 5), ch_width = f32r (1 / 5)\<rparr>,
      \<lparr>ch_enabled = True, ch_center = f32r (3 / 10), ch_width = f32r (1 / 5)\<rparr>]"


definition two_channel_render :: fosphor_render where
  "two_channel_render =
     example_render\<lparr>options := options example_render OR FRO_CHANNELS, channels := two_channels\<rparr>"

definition no_channel_render :: fosphor_render where
  "no_channel_render = example_render\<lparr>options := options example_render OR FRO_CHANNELS\<rparr>"

text \<open>The bitwise union of a list of masks.\<close>

definition bit_union :: "32 word list \<Rightarrow> 32 word" where
  "bit_union bs = foldr (OR) bs 0"

text \<open>The dB/div index lies within the table \<open>k_db_per_div\<close>.\<close>

definition idx_ok :: "sink \<Rightarrow> bool" where
  "idx_ok s = (0 \<le> d_db_per_div_idx s \<and> d_db_per_div_idx s \<le> 4)"

section \<open>Verification\<close>

subsection \<open>Rounding\<close>

lemma pow2_powi: "pow2 e = 2 powi e"
  by (simp add: pow2_def power_int_def power_divide)

lemma pow2_pos: "0 < pow2 e"
  by (simp add: pow2_def)

lemma pow2_mono: "a \<le> b \<Longrightarrow> pow2 a \<le> pow2 b"
  unfolding pow2_powi by (rule power_int_increasing) simp_all

lemma pow2_less: "pow2 a < pow2 b \<Longrightarrow> a < b"
  using pow2_mono [of b a] by (cases "a < b") simp_all

lemma pow2_nat: "pow2 (int n) = 2 ^ n"
  by (simp add: pow2_def)

lemma pow2_half: "pow2 (e - 1) = pow2 e / 2"
  unfolding pow2_powi by (simp add: power_int_diff)

lemma ilog2_bounds:
  assumes "0 < x"
  shows "pow2 (ilog2 x) \<le> x \<and> x < pow2 (ilog2 x + 1)"
proof (cases "1 \<le> x")
  case True
  define n where "n = \<lfloor>x\<rfloor>"
  have n: "1 \<le> n" using True by (simp add: n_def le_floor_iff)
  then have b: "1 \<le> bitlen n" by (simp add: bitlen_alt_def)
  from bitlen_bounds [of n] n have bb: "2 ^ nat (bitlen n - 1) \<le> n" "n < 2 ^ nat (bitlen n)"
    by simp_all
  have e: "ilog2 x = bitlen n - 1" using True by (simp add: ilog2_def n_def)
  have "pow2 (bitlen n - 1) = of_int (2 ^ nat (bitlen n - 1))"
    using b by (simp add: pow2_def)
  also have "\<dots> \<le> of_int n" using bb(1) by (simp only: of_int_le_iff)
  also have "\<dots> \<le> x" by (simp add: n_def)
  finally have lo: "pow2 (ilog2 x) \<le> x" by (simp add: e)
  have "x < of_int (n + 1)" using floor_correct [of x] by (simp add: n_def)
  also have "\<dots> \<le> of_int (2 ^ nat (bitlen n))"
    using bb(2) by (simp only: of_int_le_iff)
  also have "\<dots> = pow2 (bitlen n)" using b by (simp add: pow2_def)
  finally have "x < pow2 (ilog2 x + 1)" by (simp add: e)
  with lo show ?thesis ..
next
  case False
  define m where "m = \<lceil>1 / x\<rceil> - 1"
  have x1: "1 < 1 / x" using False assms by simp
  then have m: "1 \<le> m" unfolding m_def by (simp add: less_ceiling_iff)
  then have b: "1 \<le> bitlen m" by (simp add: bitlen_alt_def)
  from bitlen_bounds [of m] m have bb: "2 ^ nat (bitlen m - 1) \<le> m" "m < 2 ^ nat (bitlen m)"
    by simp_all
  have e: "ilog2 x = - bitlen m" using False by (simp add: ilog2_def m_def)
  have "1 / x \<le> of_int (m + 1)" using ceiling_correct [of "1 / x"] by (simp add: m_def)
  also have "\<dots> \<le> of_int (2 ^ nat (bitlen m))"
    using bb(2) by (simp only: of_int_le_iff)
  finally have "1 / x \<le> 2 ^ nat (bitlen m)" by simp
  then have "1 / 2 ^ nat (bitlen m) \<le> x"
    using assms by (simp add: field_simps)
  then have lo: "pow2 (ilog2 x) \<le> x"
    using b by (simp add: e pow2_def)
  have "(2::rat) ^ nat (bitlen m - 1) = of_int (2 ^ nat (bitlen m - 1))" by simp
  also have "\<dots> \<le> of_int m" using bb(1) by (simp only: of_int_le_iff)
  also have "\<dots> < 1 / x" using ceiling_correct [of "1 / x"] by (simp add: m_def)
  finally have "x < 1 / 2 ^ nat (bitlen m - 1)"
    using assms by (simp add: field_simps)
  moreover have "pow2 (1 - bitlen m) = 1 / 2 ^ nat (bitlen m - 1)"
    using b by (cases "bitlen m = 1") (simp_all add: pow2_def)
  ultimately have "x < pow2 (ilog2 x + 1)" by (simp add: e)
  with lo show ?thesis ..
qed

lemma ilog2_less: "0 < x \<Longrightarrow> x < pow2 e \<Longrightarrow> ilog2 x < e"
  using ilog2_bounds [of x] pow2_less [of "ilog2 x" e] by simp

lemma ilog2_ge: "pow2 e \<le> x \<Longrightarrow> e \<le> ilog2 x"
proof -
  assume a: "pow2 e \<le> x"
  then have "0 < x" using pow2_pos [of e] by simp
  with ilog2_bounds [of x] a have "pow2 e < pow2 (ilog2 x + 1)" by simp
  then show ?thesis using pow2_less by fastforce
qed

lemma round_even_error: "\<bar>of_int (round_even q) - q\<bar> \<le> 1 / 2"
proof -
  define d where "d = q - of_int \<lfloor>q\<rfloor>"
  have d: "0 \<le> d" "d < 1" unfolding d_def by linarith+
  have q: "q = of_int \<lfloor>q\<rfloor> + d" by (simp add: d_def)
  consider "d < 1 / 2" | "1 / 2 < d" | "d = 1 / 2" by linarith
  then show ?thesis
  proof cases
    case 1
    then have r: "round_even q = \<lfloor>q\<rfloor>" by (simp add: round_even_def Let_def d_def)
    show ?thesis unfolding r using d 1 unfolding d_def by linarith
  next
    case 2
    then have r: "round_even q = \<lfloor>q\<rfloor> + 1" by (simp add: round_even_def Let_def d_def)
    show ?thesis unfolding r using d 2 unfolding d_def by (simp; linarith)
  next
    case 3
    then have "round_even q = \<lfloor>q\<rfloor> \<or> round_even q = \<lfloor>q\<rfloor> + 1"
      by (simp add: round_even_def Let_def d_def)
    then show ?thesis
    proof
      assume r: "round_even q = \<lfloor>q\<rfloor>"
      show ?thesis unfolding r using d 3 unfolding d_def by linarith
    next
      assume r: "round_even q = \<lfloor>q\<rfloor> + 1"
      show ?thesis unfolding r using d 3 unfolding d_def by (simp; linarith)
    qed
  qed
qed

lemma round_even_of_int: "round_even (of_int k) = k"
  by (simp add: round_even_def)

lemma round_even_nonneg: "0 \<le> q \<Longrightarrow> 0 \<le> round_even q"
  by (auto simp: round_even_def Let_def)

lemma fp_round_error:
  assumes "x \<noteq> 0"
  shows "\<bar>fp_round p x - x\<bar> \<le> pow2 (ilog2 \<bar>x\<bar> - int p)"
proof -
  define u where "u = pow2 (ilog2 \<bar>x\<bar> - (int p - 1))"
  have u: "0 < u" by (simp add: u_def pow2_pos)
  have "fp_round p x = of_int (round_even (x / u)) * u"
    using assms by (simp add: fp_round_def Let_def u_def)
  then have "fp_round p x - x = (of_int (round_even (x / u)) - x / u) * u"
    using u by (simp add: algebra_simps)
  then have "\<bar>fp_round p x - x\<bar> = \<bar>of_int (round_even (x / u)) - x / u\<bar> * u"
    using u by (simp add: abs_mult)
  also have "\<dots> \<le> 1 / 2 * u"
    using round_even_error [of "x / u"] u by (intro mult_right_mono) simp_all
  also have "\<dots> = pow2 (ilog2 \<bar>x\<bar> - int p)"
    using pow2_half [of "ilog2 \<bar>x\<bar> - (int p - 1)"] by (simp add: u_def algebra_simps)
  finally show ?thesis .
qed

lemma fp_round_nonneg: "0 \<le> x \<Longrightarrow> 0 \<le> fp_round p x"
  using pow2_pos round_even_nonneg
  by (simp add: fp_round_def Let_def zero_le_mult_iff less_imp_le)


lemma f32r_of_int_exact:
  assumes "0 \<le> W" and "W < 2 ^ 24"
  shows "f32r (of_int W) = of_int W"
proof (cases "W = 0")
  case True
  then show ?thesis by (simp add: f32r_def fp_round_def)
next
  case False
  define x :: rat where "x = of_int W"
  define e where "e = ilog2 x"
  have x: "1 \<le> x" "x < pow2 24" using assms False by (simp_all add: x_def pow2_def)
  have e: "0 \<le> e" "e < 24"
    using ilog2_ge [of 0 x] ilog2_less [of x 24] x by (simp_all add: e_def pow2_def)
  define k where "k = nat (23 - e)"
  have u: "pow2 (e - 23) = 1 / 2 ^ k"
    using e by (cases "e = 23") (simp_all add: pow2_def k_def)
  have "x / pow2 (e - 23) = of_int (W * 2 ^ k)"
    by (simp add: u x_def)
  then have "of_int (round_even (x / pow2 (e - 23))) * pow2 (e - 23) = x"
    by (simp only: round_even_of_int) (simp add: u x_def)
  moreover have "\<bar>x\<bar> = x" "x \<noteq> 0" using x by simp_all
  ultimately show ?thesis
    by (simp add: f32r_def fp_round_def Let_def x_def [symmetric] e_def [symmetric])
qed

lemma f32r_13_20: "f32r (13 / 20) = 5452595 / 8388608"
  by code_simp

lemma main_width_bounds:
  assumes "0 \<le> W" and "W < 2 ^ 19"
  shows "13 * W div 20 - 1 \<le> to_int (f32r (f32r (of_int W) * f32r (13 / 20)))
         \<and> to_int (f32r (f32r (of_int W) * f32r (13 / 20))) \<le> 13 * W div 20"
proof (cases "W = 0")
  case True
  then show ?thesis by (simp add: f32r_def fp_round_def to_int_def)
next
  case False
  define w :: rat where "w = of_int W"
  define x where "x = w * (5452595 / 8388608)"
  define y where "y = f32r x"
  define N where "N = 13 * W div 20"
  have w: "1 \<le> w" "w < 524288" using assms False by (simp_all add: w_def)
  have fw: "f32r (of_int W) = w"
    using assms f32r_of_int_exact [of W] by (simp add: w_def)
  have x: "0 < x" "x < pow2 19" using w by (simp_all add: x_def pow2_def)
  then have "ilog2 \<bar>x\<bar> - 24 \<le> - 6" using ilog2_less [of x 19] by simp
  then have "pow2 (ilog2 \<bar>x\<bar> - 24) \<le> pow2 (- 6)" by (rule pow2_mono)
  with fp_round_error [of x 24] x have err: "\<bar>y - x\<bar> \<le> 1 / 64"
    by (simp add: y_def f32r_def pow2_def)
  have y0: "0 \<le> y" using x fp_round_nonneg [of x 24] by (simp add: y_def f32r_def)
  have "20 * N \<le> 13 * W" "13 * W \<le> 20 * N + 19" unfolding N_def by presburger+
  then have "of_int (20 * N) \<le> (of_int (13 * W) :: rat)" "(of_int (13 * W) :: rat) \<le> of_int (20 * N + 19)"
    by (simp_all only: of_int_le_iff)
  then have n: "20 * of_int N \<le> 13 * w" "13 * w \<le> 20 * of_int N + 19"
    by (simp_all add: w_def)
  have e2: "y - x \<le> 1 / 64" "x - y \<le> 1 / 64" using err by linarith+
  have xw: "x = 5452595 / 8388608 * w" by (simp add: x_def)
  have lo: "of_int (N - 1) \<le> y" using e2 n w unfolding xw by (simp; linarith?)
  have hi: "y < of_int (N + 1)" using e2 n w unfolding xw by (simp; linarith?)
  have "N - 1 \<le> \<lfloor>y\<rfloor>" using lo by (simp only: le_floor_iff)
  moreover have "\<lfloor>y\<rfloor> < N + 1" using hi by (simp only: floor_less_iff)
  ultimately show ?thesis
    using y0 by (simp add: to_int_def fw f32r_13_20 y_def x_def N_def)
qed


lemma pow2_add: "pow2 (a + b) = pow2 a * pow2 b"
  unfolding pow2_powi by (simp add: power_int_add)

lemma round_even_floor_bounds: "\<lfloor>q\<rfloor> \<le> round_even q \<and> round_even q \<le> \<lfloor>q\<rfloor> + 1"
  by (simp add: round_even_def Let_def)

lemma round_even_mono:
  assumes "q \<le> q'"
  shows "round_even q \<le> round_even q'"
proof (cases "\<lfloor>q\<rfloor> = \<lfloor>q'\<rfloor>")
  case True
  with assms have "q - of_int \<lfloor>q\<rfloor> \<le> q' - of_int \<lfloor>q'\<rfloor>" by simp
  then show ?thesis
    unfolding round_even_def Let_def using True by auto
next
  case False
  with assms have "\<lfloor>q\<rfloor> < \<lfloor>q'\<rfloor>" using floor_mono [of q q'] by simp
  with round_even_floor_bounds [of q] round_even_floor_bounds [of q'] show ?thesis by simp
qed

lemma round_even_minus: "round_even (- q) = - round_even q"
proof (cases "q = of_int \<lfloor>q\<rfloor>")
  case True
  then obtain k where "q = of_int k" ..
  then have "- q = of_int (- k)" by simp
  then show ?thesis using \<open>q = of_int k\<close> by (simp only: round_even_of_int)
next
  case False
  from False have lt: "of_int \<lfloor>q\<rfloor> < q"
    by (metis of_int_floor_le order_less_le)
  have "q < of_int \<lfloor>q\<rfloor> + 1" using floor_correct [of q] by simp
  with lt have f: "\<lfloor>- q\<rfloor> = - \<lfloor>q\<rfloor> - 1" by (intro floor_unique) simp_all
  show ?thesis
    unfolding round_even_def Let_def f using lt by (auto simp: algebra_simps)
qed

lemma fp_round_minus: "fp_round p (- x) = - fp_round p x"
  by (simp add: fp_round_def Let_def round_even_minus)

lemma fp_round_nonpos: "x \<le> 0 \<Longrightarrow> fp_round p x \<le> 0"
  using fp_round_nonneg [of "- x" p] by (simp add: fp_round_minus)

lemma fp_round_pos_mono:
  assumes "0 < x" and "x \<le> y" and "1 \<le> p"
  shows "fp_round p x \<le> fp_round p y"
proof -
  define ex where "ex = ilog2 x"
  define ey where "ey = ilog2 y"
  define u where "u = pow2 (ex - (int p - 1))"
  define u' where "u' = pow2 (ey - (int p - 1))"
  have y: "0 < y" using assms by simp
  have u: "0 < u" "0 < u'" by (simp_all add: u_def u'_def pow2_pos)
  have fx: "fp_round p x = of_int (round_even (x / u)) * u"
    using assms(1) by (simp add: fp_round_def Let_def u_def ex_def)
  have fy: "fp_round p y = of_int (round_even (y / u')) * u'"
    using y by (simp add: fp_round_def Let_def u'_def ey_def)
  have bx: "pow2 ex \<le> x" "x < pow2 (ex + 1)"
    using ilog2_bounds [OF assms(1)] by (simp_all add: ex_def)
  have by': "pow2 ey \<le> y" "y < pow2 (ey + 1)"
    using ilog2_bounds [OF y] by (simp_all add: ey_def)
  have "pow2 ex \<le> y" using bx(1) assms(2) by simp
  then have le: "ex \<le> ey" unfolding ey_def by (rule ilog2_ge)
  show ?thesis
  proof (cases "ex = ey")
    case True
    then have "u' = u" by (simp add: u_def u'_def)
    moreover have "x / u \<le> y / u" using assms(2) u by (simp add: divide_right_mono)
    then have "round_even (x / u) \<le> round_even (y / u)" by (rule round_even_mono)
    ultimately show ?thesis
      unfolding fx fy using u by (simp add: mult_right_mono)
  next
    case False
    with le have lt: "ex + 1 \<le> ey" by simp
    have "pow2 (ex + 1) = u * pow2 (int p)"
      using pow2_add [of "ex - (int p - 1)" "int p"] by (simp add: u_def)
    then have "x / u < of_int (2 ^ p)"
      using bx(2) u by (simp add: pow2_nat field_simps)
    then have "round_even (x / u) \<le> round_even (of_int (2 ^ p))"
      by (intro round_even_mono) simp
    then have "round_even (x / u) \<le> 2 ^ p" by (simp only: round_even_of_int)
    then have "(of_int (round_even (x / u)) :: rat) \<le> of_int (2 ^ p)"
      by (simp only: of_int_le_iff)
    then have "fp_round p x \<le> of_int (2 ^ p) * u"
      unfolding fx using u by (intro mult_right_mono) simp_all
    also have "\<dots> = pow2 (ex + 1)"
      using pow2_add [of "ex - (int p - 1)" "int p"] by (simp add: u_def pow2_nat)
    finally have up: "fp_round p x \<le> pow2 (ex + 1)" .
    obtain k where k: "p = Suc k" using assms(3) by (cases p) simp_all
    have "pow2 ey = u' * pow2 (int k)"
      using pow2_add [of "ey - (int p - 1)" "int k"] by (simp add: u'_def k)
    then have "of_int (2 ^ k) \<le> y / u'"
      using by'(1) u by (simp add: pow2_nat field_simps)
    then have "round_even (of_int (2 ^ k)) \<le> round_even (y / u')"
      by (intro round_even_mono)
    then have "2 ^ k \<le> round_even (y / u')" by (simp only: round_even_of_int)
    then have "(of_int (2 ^ k) :: rat) \<le> of_int (round_even (y / u'))"
      by (simp only: of_int_le_iff)
    then have "of_int (2 ^ k) * u' \<le> fp_round p y"
      unfolding fy using u by (intro mult_right_mono) simp_all
    moreover have "of_int (2 ^ k) * u' = pow2 ey"
      using pow2_add [of "ey - (int p - 1)" "int k"] by (simp add: u'_def k pow2_nat)
    ultimately have lo: "pow2 ey \<le> fp_round p y" by simp
    from up pow2_mono [OF lt] lo show ?thesis by simp
  qed
qed

lemma fp_round_mono:
  assumes "x \<le> y" and "1 \<le> p"
  shows "fp_round p x \<le> fp_round p y"
proof -
  consider "0 < x" | "y < 0" | "x \<le> 0" "0 \<le> y" by linarith
  then show ?thesis
  proof cases
    case 1
    then show ?thesis using assms by (rule fp_round_pos_mono)
  next
    case 2
    then have "0 < - y" "- y \<le> - x" using assms(1) by simp_all
    from fp_round_pos_mono [OF this assms(2)] show ?thesis by (simp add: fp_round_minus)
  next
    case 3
    with fp_round_nonpos [of x p] fp_round_nonneg [of y p] show ?thesis by simp
  qed
qed

lemma f32r_mono: "x \<le> y \<Longrightarrow> f32r x \<le> f32r y"
  unfolding f32r_def by (rule fp_round_mono) simp_all

text \<open>
  The relative error of one rounding is at most \<open>2\<^sup>-\<^sup>2\<^sup>4\<close>; a product of an exactly
  represented factor with a rounded sum of a term and a rounded term is within \<open>2\<^sup>-\<^sup>2\<^sup>2\<close> of
  the exact product, relative to the magnitudes of the terms.
\<close>

lemma f32r_rel_error: "\<bar>f32r x - x\<bar> \<le> \<bar>x\<bar> / 2 ^ 24"
proof (cases "x = 0")
  case True
  then show ?thesis by (simp add: f32r_def fp_round_def)
next
  case False
  then have p: "0 < \<bar>x\<bar>" by simp
  have "\<bar>f32r x - x\<bar> \<le> pow2 (ilog2 \<bar>x\<bar> - 24)"
    using fp_round_error [OF False, of 24] by (simp add: f32r_def)
  also have "\<dots> = pow2 (ilog2 \<bar>x\<bar>) * pow2 (- 24)"
    using pow2_add [of "ilog2 \<bar>x\<bar>" "- 24"] by simp
  also have "\<dots> \<le> \<bar>x\<bar> * pow2 (- 24)"
    using ilog2_bounds [OF p] pow2_pos [of "- 24"] by (intro mult_right_mono) simp_all
  also have "\<dots> = \<bar>x\<bar> / 2 ^ 24" by (simp add: pow2_def)
  finally show ?thesis .
qed

lemma scaled_sum_error:
  fixes c s n :: rat
  assumes n: "f32r n = n"
  shows "\<bar>f32r (f32r n * f32r (c + f32r s)) - n * (c + s)\<bar> \<le> \<bar>n\<bar> * (\<bar>c\<bar> + \<bar>s\<bar>) / 2 ^ 22"
proof -
  define h where "h = f32r s"
  define y where "y = c + h"
  define z where "z = f32r y"
  define b where "b = f32r (n * z)"
  define e where "e = z - (c + s)"
  define ac where "ac = \<bar>c\<bar>"
  define as where "as = \<bar>s\<bar>"
  define ah where "ah = \<bar>h\<bar>"
  define ay where "ay = \<bar>y\<bar>"
  define az where "az = \<bar>z\<bar>"
  define ae where "ae = \<bar>e\<bar>"
  define dh where "dh = \<bar>h - s\<bar>"
  define dz where "dz = \<bar>z - y\<bar>"
  have eh: "dh \<le> as / 16777216"
    using f32r_rel_error [of s] by (simp add: h_def dh_def as_def)
  have ez: "dz \<le> ay / 16777216"
    using f32r_rel_error [of y] by (simp add: z_def dz_def ay_def)
  have eb: "\<bar>b - n * z\<bar> \<le> \<bar>n * z\<bar> / 16777216"
    using f32r_rel_error [of "n * z"] by (simp add: b_def)
  have p: "0 \<le> ac" "0 \<le> as"
    by (simp_all add: ac_def as_def)
  have t: "ah \<le> as + dh" "ay \<le> ac + ah" "ae \<le> dz + dh" "az \<le> ac + as + ae"
    unfolding ah_def as_def dh_def ay_def ac_def ae_def dz_def az_def e_def y_def by linarith+
  define A where "A = ac + as"
  have "ae \<le> ac / 16777216 + as / 8388608 + as / 281474976710656"
    using eh ez t by linarith
  also have "\<dots> \<le> 33554433 / 281474976710656 * A"
    unfolding A_def using p by (simp add: field_simps)
  finally have d: "ae \<le> 33554433 / 281474976710656 * A" .
  have zb: "az \<le> A + 33554433 / 281474976710656 * A"
    using d t(4) A_def by linarith
  define B where "B = \<bar>n\<bar> * A"
  have B0: "0 \<le> B"
    using p by (simp add: B_def A_def)
  have "\<bar>n\<bar> * ae \<le> \<bar>n\<bar> * (33554433 / 281474976710656 * A)"
    using d by (intro mult_left_mono) simp_all
  then have t1: "\<bar>n * e\<bar> \<le> 33554433 / 281474976710656 * B"
    by (simp add: abs_mult B_def ae_def)
  have "\<bar>n\<bar> * az \<le> \<bar>n\<bar> * (A + 33554433 / 281474976710656 * A)"
    using zb by (intro mult_left_mono) simp_all
  then have t2: "\<bar>n * z\<bar> \<le> B + 33554433 / 281474976710656 * B"
    by (simp add: abs_mult B_def az_def algebra_simps)
  have s: "b - n * (c + s) = (b - n * z) + n * e"
    by (simp add: e_def algebra_simps)
  have "\<bar>b - n * (c + s)\<bar> \<le> \<bar>b - n * z\<bar> + \<bar>n * e\<bar>"
    unfolding s by (rule abs_triangle_ineq)
  also have "\<dots> \<le> B / 4194304"
    using eb t1 t2 B0 by linarith
  finally show ?thesis
    by (simp add: b_def z_def y_def h_def B_def A_def ac_def as_def n)
qed

lemma to_int_of_int: "to_int (of_int k) = k"
  by (simp add: to_int_def)

lemma f32r_minus: "f32r (- x) = - f32r x"
  by (simp add: f32r_def fp_round_minus)

subsection \<open>Settings register, setters and UI actions\<close>

lemma mark_fold: "d_settings_changed (fold settings_mark_changed bs s) = d_settings_changed s OR bit_union bs"
  by (induction bs arbitrary: s) (simp_all add: bit_union_def settings_mark_changed_def ac_simps)

text \<open>
  Claim C8. After any sequence of \<open>settings_mark_changed b\<^sub>1 \<dots> b\<^sub>n\<close> on a register that
  has just been drained, one \<open>settings_get_and_reset_changed\<close> returns exactly the bitwise
  union of \<open>b\<^sub>1 \<dots> b\<^sub>n\<close> (bit \<open>n\<close> is set iff it is set in some \<open>b\<^sub>i\<close>), and from any
  register the drain that immediately follows a drain returns the empty set.
\<close>

theorem drain_union:
  "fst (settings_get_and_reset_changed
          (fold settings_mark_changed bs (snd (settings_get_and_reset_changed s)))) = bit_union bs
   \<and> fst (settings_get_and_reset_changed
            (snd (settings_get_and_reset_changed (fold settings_mark_changed bs s)))) = 0
   \<and> (\<forall>n. bit (bit_union bs) n = (\<exists>b \<in> set bs. bit b n))"
proof -
  have "bit (bit_union bs) n = (\<exists>b \<in> set bs. bit b n)" for n
    by (induction bs) (auto simp: bit_union_def bit_or_iff)
  then show ?thesis
    by (simp add: settings_get_and_reset_changed_def mark_fold)
qed

text \<open>
  Claim C9, as amended. While zoom is disabled, \<open>ZOOM_WIDTH_UP\<close> leaves the zoom width and
  every other field of the state unchanged, except that the action still marks the
  power-range and render-options categories in the pending settings: the mark at the end
  of \<open>execute_ui_action\<close> is unconditional.
\<close>

theorem zoom_width_up_disabled:
  "\<not> d_zoom_enabled s \<Longrightarrow>
     execute_ui_action ZOOM_WIDTH_UP s =
       Some (s\<lparr>d_settings_changed :=
                 d_settings_changed s OR (SETTING_POWER_RANGE OR SETTING_RENDER_OPTIONS)\<rparr>)"
  by (simp add: execute_ui_action_def settings_mark_changed_def)

text \<open>
  The claim as stated asks for the pending settings to be unchanged too. From an empty
  register the action leaves it non-empty.
\<close>

theorem zoom_width_up_disabled_cex:
  "\<not> d_zoom_enabled example_sink \<and> execute_ui_action ZOOM_WIDTH_UP example_sink \<noteq> Some example_sink"
  apply (simp add: execute_ui_action_def settings_mark_changed_def example_sink_def base_sink_c_impl_def SETTING_POWER_RANGE_def SETTING_RENDER_OPTIONS_def)
  done


theorem zoom_width_up_disabled_witness:
  "\<not> d_zoom_enabled example_sink \<and>
   execute_ui_action ZOOM_WIDTH_UP example_sink = Some (example_sink\<lparr>d_settings_changed := 18\<rparr>)"
proof -
  have z: "\<not> d_zoom_enabled example_sink"
    by (simp add: example_sink_def base_sink_c_impl_def)
  have d: "d_settings_changed example_sink = 0"
    by (simp add: example_sink_def base_sink_c_impl_def)
  show ?thesis
    using z zoom_width_up_disabled [OF z]
    by (simp add: d SETTING_POWER_RANGE_def SETTING_RENDER_OPTIONS_def)
qed

text \<open>
  Claim C7. \<open>set_fft_size\<close> with the active size changes nothing, so nothing is marked;
  with a value outside \<open>{512, 1024, 2048, 4096, 8192, 16384, 32768}\<close> it leaves the stored
  size and the pending settings unchanged; with a supported value that is not active it
  stores the size and marks the fft-size category, and a second call with the same value
  changes nothing more: the category is marked once.
\<close>

theorem set_fft_size_dedup:
  "(sz = d_fft_size s \<longrightarrow> set_fft_size sz s = s)
   \<and> (sz \<notin> {512, 1024, 2048, 4096, 8192, 16384, 32768} \<longrightarrow> set_fft_size sz s = s)
   \<and> (sz \<in> {512, 1024, 2048, 4096, 8192, 16384, 32768} \<and> sz \<noteq> d_fft_size s \<longrightarrow>
        set_fft_size sz s =
          s\<lparr>d_fft_size := sz, d_settings_changed := d_settings_changed s OR SETTING_FFT_SIZE\<rparr>
        \<and> set_fft_size sz (set_fft_size sz s) = set_fft_size sz s)"
  by (auto simp: set_fft_size_def settings_mark_changed_def)

theorem set_fft_size_dedup_witness:
  "set_fft_size 1024 example_sink = example_sink
   \<and> set_fft_size 1000 example_sink = example_sink
   \<and> set_fft_size 4096 example_sink =
       example_sink\<lparr>d_fft_size := 4096, d_settings_changed := SETTING_FFT_SIZE\<rparr>
   \<and> set_fft_size 4096 (set_fft_size 4096 example_sink) = set_fft_size 4096 example_sink"
proof -
  have f: "d_fft_size example_sink = 1024" and d: "d_settings_changed example_sink = 0"
    by (simp_all add: example_sink_def base_sink_c_impl_def)
  have a: "set_fft_size 1024 example_sink = example_sink"
    using set_fft_size_dedup [of 1024 example_sink] by (simp add: f)
  have b: "set_fft_size 1000 example_sink = example_sink"
    using set_fft_size_dedup [of 1000 example_sink] by simp
  have h: "(4096::int) \<in> {512, 1024, 2048, 4096, 8192, 16384, 32768}
           \<and> 4096 \<noteq> d_fft_size example_sink"
    by (simp add: f)
  have e: "d_settings_changed example_sink OR SETTING_FFT_SIZE = SETTING_FFT_SIZE"
    by (simp add: d)
  from set_fft_size_dedup [of 4096 example_sink] h
  have c: "set_fft_size 4096 example_sink =
             example_sink\<lparr>d_fft_size := 4096, d_settings_changed := SETTING_FFT_SIZE\<rparr>
           \<and> set_fft_size 4096 (set_fft_size 4096 example_sink) = set_fft_size 4096 example_sink"
    unfolding e by blast
  from a b c show ?thesis by blast
qed

lemma k_db_per_div_at_ok: "idx_ok s \<Longrightarrow> \<exists>k. k_db_per_div_at (d_db_per_div_idx s) = Some k"
  by (simp add: idx_ok_def k_db_per_div_at_def k_db_per_div_def)

lemma ui_switch_idx_ok: "idx_ok s \<Longrightarrow> \<exists>s'. ui_switch a s = Some s' \<and> idx_ok s'"
proof (cases a)
  case REF_UP
  assume ok: "idx_ok s"
  then obtain k where "k_db_per_div_at (d_db_per_div_idx s) = Some k"
    using k_db_per_div_at_ok by blast
  with ok REF_UP show ?thesis by (simp add: idx_ok_def)
next
  case REF_DOWN
  assume ok: "idx_ok s"
  then obtain k where "k_db_per_div_at (d_db_per_div_idx s) = Some k"
    using k_db_per_div_at_ok by blast
  with ok REF_DOWN show ?thesis by (simp add: idx_ok_def)
qed (auto simp: idx_ok_def)

lemma execute_ui_action_idx_ok:
  "idx_ok s \<Longrightarrow> \<exists>s'. execute_ui_action a s = Some s' \<and> idx_ok s'"
  using ui_switch_idx_ok [of s a]
  by (auto simp: execute_ui_action_def settings_mark_changed_def idx_ok_def)

lemma execute_ui_actions_idx_ok:
  "idx_ok s \<Longrightarrow> \<exists>s'. execute_ui_actions as s = Some s' \<and> idx_ok s'"
proof (induction as arbitrary: s)
  case Nil
  then show ?case by simp
next
  case (Cons a as)
  from execute_ui_action_idx_ok [OF Cons.prems, of a]
  obtain s1 where s1: "execute_ui_action a s = Some s1" "idx_ok s1" by blast
  from Cons.IH [OF s1(2)] s1(1) show ?case by simp
qed

lemma settings_apply_idx_ok: "idx_ok s \<Longrightarrow> settings_apply st s \<noteq> None"
  using k_db_per_div_at_ok [of s]
  by (auto simp: settings_apply_def Let_def log_calls_def split: option.splits)

text \<open>
  Claim C10. From the constructor's state every sequence of UI actions runs without a read
  outside \<open>k_db_per_div\<close>, and ends in a state whose dB/div index is within \<open>{0, \<dots>, 4}\<close>,
  where the read \<open>k_db_per_div[d_db_per_div_idx]\<close> of \<open>REF_UP\<close>, \<open>REF_DOWN\<close> and of the
  power-range apply is inside the five-element table.
\<close>

theorem db_per_div_idx_in_bounds:
  "\<exists>s'. execute_ui_actions as (base_sink_c_impl w h sc rd) = Some s'
        \<and> 0 \<le> d_db_per_div_idx s' \<and> d_db_per_div_idx s' \<le> 4
        \<and> k_db_per_div_at (d_db_per_div_idx s') \<noteq> None
        \<and> settings_apply st s' \<noteq> None"
proof -
  have "idx_ok (base_sink_c_impl w h sc rd)"
    by (simp add: idx_ok_def base_sink_c_impl_def)
  then obtain s' where s': "execute_ui_actions as (base_sink_c_impl w h sc rd) = Some s'" "idx_ok s'"
    using execute_ui_actions_idx_ok by blast
  with k_db_per_div_at_ok [OF s'(2)] settings_apply_idx_ok [OF s'(2)] show ?thesis
    by (auto simp: idx_ok_def)
qed


subsection \<open>One render iteration on one chunk\<close>

lemma and_not_mask: "(16384::int) AND NOT 16383 = 16384"
  by code_simp

lemma used_read_discard: "used f = n \<Longrightarrow> used (read_discard n f) = 0"
proof -
  assume u: "used f = n"
  have "used (read_discard n f) = (d_wp f - (d_rp f + n) mod d_len f) mod d_len f"
    by (simp add: used_def read_discard_def)
  also have "\<dots> = (d_wp f - (d_rp f + n)) mod d_len f"
    by (rule mod_diff_right_eq)
  also have "\<dots> = ((d_wp f - d_rp f) - n) mod d_len f"
    by (simp only: diff_diff_add)
  also have "\<dots> = ((d_wp f - d_rp f) mod d_len f - n) mod d_len f"
    by (rule mod_diff_left_eq [symmetric])
  also have "\<dots> = 0"
    using u by (simp add: used_def)
  finally show ?thesis .
qed



lemma batch_len_chunk: "batch_len 1024 16384 f = 16384" if "16384 \<le> read_max_size f"
proof -
  have "(if 16384 > read_max_size f then read_max_size f else 16384) = 16384"
    using that by simp
  moreover have "(16 * 1024 - 1 :: int) = 16383" by simp
  ultimately show ?thesis
    unfolding batch_len_def Let_def by (simp only: and_not_mask) simp
qed

lemma layout_frame:
  "d_fifo (layout s) = d_fifo s \<and> d_frozen (layout s) = d_frozen s
   \<and> process_calls (layout s) = process_calls s"
  by (simp add: layout_def Let_def log_calls_def process_calls_def)

lemma log_calls_frame:
  "d_fifo (log_calls cs s) = d_fifo s \<and> d_frozen (log_calls cs s) = d_frozen s
   \<and> d_db_per_div_idx (log_calls cs s) = d_db_per_div_idx s
   \<and> process_calls (log_calls cs s) = process_calls s @ filter is_process cs"
  by (simp add: log_calls_def process_calls_def)

lemma settings_apply_frame:
  "settings_apply v s = Some s' \<Longrightarrow>
     d_fifo s' = d_fifo s \<and> d_frozen s' = d_frozen s \<and> process_calls s' = process_calls s"
  by (auto simp: settings_apply_def Let_def log_calls_frame layout_frame
      split: option.splits if_splits)

lemma render_loop_one_chunk:
  assumes "16384 \<le> read_max_size (d_fifo s)" and u: "used (d_fifo s) = 16384"
  shows "used (d_fifo (render_loop (Suc (Suc k)) 1024 16384 s)) = 0
         \<and> process_calls (render_loop (Suc (Suc k)) 1024 16384 s) =
             process_calls s @ (if d_frozen s then [] else [Fosphor_process (d_rp (d_fifo s)) 16384])"
proof -
  have d: "used (read_discard 16384 (d_fifo s)) = 0"
    using u by (rule used_read_discard)
  show ?thesis
    by (simp add: batch_len_chunk [OF assms(1)] Let_def d log_calls_def process_calls_def)
qed

text \<open>
  Claim C5. At FFT size 1024, when the FIFO holds exactly \<open>16 \<times> 1024\<close> samples in one
  contiguous run (the read cursor is at least that far from the wrap point, as it is
  whenever it is batch-aligned), one \<open>render\<close> iteration returns, leaves \<open>used = 0\<close> and adds
  exactly one process call, of length \<open>16 \<times> 1024\<close> at the read cursor; when frozen it adds no
  process call and still leaves \<open>used = 0\<close>.
\<close>

theorem render_one_chunk:
  assumes "d_fft_size s = 1024"
    and "used (d_fifo s) = 16 * 1024"
    and "16 * 1024 \<le> read_max_size (d_fifo s)"
    and "idx_ok s"
  shows "\<exists>s'. render s = Some s' \<and> used (d_fifo s') = 0
           \<and> process_calls s' =
               process_calls s
               @ (if d_frozen s then [] else [Fosphor_process (d_rp (d_fifo s)) (16 * 1024)])"
proof -
  let ?s0 = "s\<lparr>d_settings_changed := 0\<rparr>"
  have "idx_ok ?s0" using assms(4) by (simp add: idx_ok_def)
  then obtain s1 where s1: "settings_apply (d_settings_changed s) ?s0 = Some s1"
    using settings_apply_idx_ok by blast
  from settings_apply_frame [OF s1]
  have fr: "d_fifo s1 = d_fifo s" "d_frozen s1 = d_frozen s" "process_calls s1 = process_calls s"
    by (simp_all add: process_calls_def)
  have m: "16384 \<le> read_max_size (d_fifo s1)" and u: "used (d_fifo s1) = 16384"
    using assms(2,3) by (simp_all add: fr)
  have 8: "(8::nat) = Suc (Suc 6)" by simp
  from render_loop_one_chunk [OF m u, of 6]
  have l: "used (d_fifo (render_loop 8 1024 16384 s1)) = 0"
    "process_calls (render_loop 8 1024 16384 s1) =
       process_calls s @ (if d_frozen s then [] else [Fosphor_process (d_rp (d_fifo s)) 16384])"
    by (simp_all only: 8 [symmetric] fr)
  show ?thesis
    using l by (simp add: render_def settings_get_and_reset_changed_def s1 assms(1) u Let_def
        log_calls_frame)
qed

theorem render_one_chunk_witness:
  "(\<exists>s'. render (example_sink_chunk False) = Some s' \<and> used (d_fifo s') = 0
          \<and> process_calls s' = [Fosphor_process 0 16384])
   \<and> (\<exists>s'. render (example_sink_chunk True) = Some s' \<and> used (d_fifo s') = 0
          \<and> process_calls s' = [])"
proof -
  have h: "d_fft_size (example_sink_chunk fr) = 1024"
    "used (d_fifo (example_sink_chunk fr)) = 16 * 1024"
    "16 * 1024 \<le> read_max_size (d_fifo (example_sink_chunk fr))"
    "idx_ok (example_sink_chunk fr)"
    "process_calls (example_sink_chunk fr) = []"
    "d_rp (d_fifo (example_sink_chunk fr)) = 0"
    "d_frozen (example_sink_chunk fr) = fr" for fr
    by (simp_all add: example_sink_chunk_def example_sink_def base_sink_c_impl_def used_def
        read_max_size_def idx_ok_def process_calls_def)
  show ?thesis
    using render_one_chunk [OF h(1-4), of False] render_one_chunk [OF h(1-4), of True]
    by (simp add: h)
qed


subsection \<open>Power grid and spectrum range\<close>

lemma gridline_ys_row:
  "gridline_ys (grid_row self r i @ cs) = f32r (grid_y r i + 1 / 2) # gridline_ys cs"
  by (simp add: grid_row_def Let_def)

lemma power_labels_row:
  "power_labels (grid_row self r i @ cs) =
     (if options r AND FRO_LABEL_PWR \<noteq> 0
      then [(grid_y r i, power_db_ref self - (10 - int i) * power_db_per_div self)]
      else []) @ power_labels cs"
  by (simp add: grid_row_def Let_def)

lemma gridline_ys_rows:
  "gridline_ys (concat (map (grid_row self r) ns)) = map (\<lambda>i. f32r (grid_y r i + 1 / 2)) ns"
  by (induction ns) (simp_all add: gridline_ys_row)

lemma power_labels_rows:
  "power_labels (concat (map (grid_row self r) ns)) =
     (if options r AND FRO_LABEL_PWR \<noteq> 0
      then map (\<lambda>i. (grid_y r i, power_db_ref self - (10 - int i) * power_db_per_div self)) ns
      else [])"
  by (induction ns) (simp_all add: power_labels_row)

text \<open>
  Claim C1, as amended. For every pane drawn with live, max-hold or histogram rendering
  enabled, the compositor draws exactly 11 horizontal power gridlines, \<open>i = 0, \<dots>, 10\<close>,
  bounding 10 divisions. When power labels are enabled for the pane, gridline \<open>i\<close> carries
  the label \<open>reference - (10 - i) \<times> dB_per_div\<close> at its height; when they are disabled (the
  sink disables them for the zoom pane) no gridline is labelled.
\<close>

theorem power_grid_lines:
  assumes "options r AND (FRO_LIVE OR FRO_MAX_HOLD OR FRO_HISTO) \<noteq> 0"
  shows "gridline_ys (draw_power_grid self r) = map (\<lambda>i. f32r (grid_y r i + 1 / 2)) [0..<11]
         \<and> length (gridline_ys (draw_power_grid self r)) = 11
         \<and> power_labels (draw_power_grid self r) =
             (if options r AND FRO_LABEL_PWR \<noteq> 0
              then map (\<lambda>i. (grid_y r i, power_db_ref self - (10 - int i) * power_db_per_div self))
                     [0..<11]
              else [])"
  using assms by (simp add: draw_power_grid_def gridline_ys_rows power_labels_rows)

lemma ex_opts: "options example_render AND (FRO_LIVE OR FRO_MAX_HOLD OR FRO_HISTO) \<noteq> 0"
  by (simp add: example_render_def FRO_LIVE_def FRO_MAX_HOLD_def FRO_HISTO_def FRO_WATERFALL_def
        FRO_LABEL_FREQ_def FRO_LABEL_PWR_def FRO_LABEL_TIME_def FRO_COLOR_SCALE_def)

lemma ex_opts2: "options example_render AND (FRO_LIVE OR FRO_MAX_HOLD) \<noteq> 0"
  by code_simp

lemma ex_rng: "spectrum_range example_fosphor example_render = Some (1, 1023)"
  by code_simp

text \<open>The claim as stated counts 10 gridlines; a default pane gets 11.\<close>

theorem power_grid_lines_cex:
  "options example_render AND (FRO_LIVE OR FRO_MAX_HOLD OR FRO_HISTO) \<noteq> 0
   \<and> length (gridline_ys (draw_power_grid example_fosphor example_render)) \<noteq> 10"
  by code_simp


theorem power_grid_lines_witness:
  "options example_render AND (FRO_LIVE OR FRO_MAX_HOLD OR FRO_HISTO) \<noteq> 0
   \<and> length (gridline_ys (draw_power_grid example_fosphor example_render)) = 11
   \<and> map snd (power_labels (draw_power_grid example_fosphor example_render)) =
       map (\<lambda>i. 0 - (10 - int i) * 10) [0..<11]"
proof -
  have l: "options example_render AND FRO_LABEL_PWR \<noteq> 0"
    by code_simp
  from power_grid_lines [OF ex_opts, of example_fosphor] l
  show ?thesis
    by (simp add: ex_opts example_fosphor_def comp_def)
qed

text \<open>
  The two products of the spectrum block against the exact products, and the range of the
  end points.
\<close>

lemma bin_lo_error:
  assumes "0 \<le> fft_len self" and "fft_len self < 2 ^ 24"
  shows "\<bar>bin_lo self r - of_int (fft_len self) * (freq_center r - freq_span r / 2)\<bar>
         \<le> of_int (fft_len self) * (\<bar>freq_center r\<bar> + \<bar>freq_span r\<bar> / 2) / 2 ^ 22"
proof -
  have n: "f32r (of_int (fft_len self)) = of_int (fft_len self)"
    using assms by (rule f32r_of_int_exact)
  have eq: "bin_lo self r =
              f32r (f32r (of_int (fft_len self))
                    * f32r (freq_center r + f32r (- (freq_span r / 2))))"
    by (simp add: bin_lo_def f32r_minus)
  show ?thesis
    unfolding eq
    using scaled_sum_error [OF n, of "freq_center r" "- (freq_span r / 2)"] assms(1)
    by simp
qed

lemma bin_hi_error:
  assumes "0 \<le> fft_len self" and "fft_len self < 2 ^ 24"
  shows "\<bar>bin_hi self r - of_int (fft_len self) * (freq_center r + freq_span r / 2)\<bar>
         \<le> of_int (fft_len self) * (\<bar>freq_center r\<bar> + \<bar>freq_span r\<bar> / 2) / 2 ^ 22"
proof -
  have n: "f32r (of_int (fft_len self)) = of_int (fft_len self)"
    using assms by (rule f32r_of_int_exact)
  show ?thesis
    using scaled_sum_error [OF n, of "freq_center r" "freq_span r / 2"] assms(1)
    by (simp add: bin_hi_def)
qed

lemma bin_magnitude:
  fixes b x B :: rat
  assumes "\<bar>b - x\<bar> \<le> B / 2 ^ 22" and "\<bar>x\<bar> \<le> B" and "B \<le> 2 ^ 29"
  shows "- 536871040 \<le> \<lfloor>b\<rfloor> \<and> \<lceil>b\<rceil> \<le> 536871040"
proof -
  have "\<bar>b - x\<bar> \<le> B / 4194304" "B \<le> 536870912"
    using assms by simp_all
  with assms(2) have "\<bar>b\<bar> \<le> 536871040" by linarith
  then have "of_int (- 536871040) \<le> b" "b \<le> of_int 536871040" by simp_all
  then show ?thesis by (simp only: le_floor_iff ceiling_le_iff)
qed

lemma exact_magnitude:
  fixes n c s :: rat
  assumes "0 \<le> n"
  shows "\<bar>n * (c - s / 2)\<bar> \<le> n * (\<bar>c\<bar> + \<bar>s\<bar> / 2)" "\<bar>n * (c + s / 2)\<bar> \<le> n * (\<bar>c\<bar> + \<bar>s\<bar> / 2)"
proof -
  have "\<bar>c - s / 2\<bar> \<le> \<bar>c\<bar> + \<bar>s\<bar> / 2" "\<bar>c + s / 2\<bar> \<le> \<bar>c\<bar> + \<bar>s\<bar> / 2" by linarith+
  then have "n * \<bar>c - s / 2\<bar> \<le> n * (\<bar>c\<bar> + \<bar>s\<bar> / 2)" "n * \<bar>c + s / 2\<bar> \<le> n * (\<bar>c\<bar> + \<bar>s\<bar> / 2)"
    using assms by (simp_all add: mult_left_mono)
  then show "\<bar>n * (c - s / 2)\<bar> \<le> n * (\<bar>c\<bar> + \<bar>s\<bar> / 2)" "\<bar>n * (c + s / 2)\<bar> \<le> n * (\<bar>c\<bar> + \<bar>s\<bar> / 2)"
    using assms by (simp_all add: abs_mult)
qed

lemma ends_within_one:
  fixes b x :: rat
  assumes "\<bar>b - x\<bar> \<le> 1"
  shows "\<bar>\<lceil>b\<rceil> - \<lceil>x\<rceil>\<bar> \<le> 1 \<and> \<bar>\<lfloor>b\<rfloor> - \<lfloor>x\<rfloor>\<bar> \<le> 1"
proof -
  have "b \<le> x + 1" "x \<le> b + 1" using assms by linarith+
  then have "\<lceil>b\<rceil> \<le> \<lceil>x + 1\<rceil>" "\<lceil>x\<rceil> \<le> \<lceil>b + 1\<rceil>" "\<lfloor>b\<rfloor> \<le> \<lfloor>x + 1\<rfloor>" "\<lfloor>x\<rfloor> \<le> \<lfloor>b + 1\<rfloor>"
    by (simp_all only: ceiling_mono floor_mono)
  then show ?thesis by linarith
qed

lemma spectrum_range_defined:
  assumes "0 < fft_len self" and "fft_len self < 2 ^ 24"
    and "- 536871040 \<le> \<lceil>bin_lo self r\<rceil>" and "\<lceil>bin_lo self r\<rceil> \<le> 536871040"
    and "- 536871040 \<le> \<lfloor>bin_hi self r\<rfloor>" and "\<lfloor>bin_hi self r\<rfloor> \<le> 536871040"
  shows "spectrum_range self r =
           Some (max 1 \<lceil>bin_lo self r\<rceil>, min (fft_len self - 1) \<lfloor>bin_hi self r\<rfloor>)"
  using assms
  by (simp add: spectrum_range_def int_result_def INT_MIN_def INT_MAX_def ceilf_def floorf_def
      to_int_of_int Let_def max_def min_def)

lemma draw_spectrum_defined:
  assumes "options r AND (FRO_LIVE OR FRO_MAX_HOLD) \<noteq> 0"
    and "spectrum_range self r = Some (i0, i1)"
    and "0 < fft_len self" and "fft_len self < 2 ^ 24"
    and "1 \<le> i0" and "i0 \<le> 536871040" and "- 536871040 \<le> i1" and "i1 < fft_len self"
  shows "draw_spectrum self r =
           Some ((if options r AND FRO_LIVE \<noteq> 0 then [Gl_draw_arrays i0 (i1 - i0 + 1)] else [])
                 @ (if options r AND FRO_MAX_HOLD \<noteq> 0
                    then [Gl_draw_arrays (i0 + fft_len self) (i1 - i0 + 1)] else []))"
  using assms
  by (simp add: draw_spectrum_def spectrum_len_def int_result_def INT_MIN_def INT_MAX_def Let_def)

lemma strip_vertices: "drawn_vertices (Gl_draw_arrays a (b - a + 1)) = {a .. b}"
  by auto

text \<open>
  Outside the \<^verbatim>\<open>int\<close> range the conversion of an end point has no defined value. The zoom
  width has no upper limit: after \<open>ZOOM_TOGGLE\<close> and 25 \<open>ZOOM_WIDTH_UP\<close> the span of the zoom pane
  is \<open>6710886.5\<close>, the upper product \<open>1024 \<times> 3355443.75 = 3435974400\<close> is above \<open>2\<^sup>3\<^sup>1 - 1\<close>.
\<close>

lemma spectrum_range_undefined:
  assumes "\<lceil>bin_lo self r\<rceil> < - (2 ^ 31) \<or> 2 ^ 31 \<le> \<lceil>bin_lo self r\<rceil>
           \<or> \<lfloor>bin_hi self r\<rfloor> < - (2 ^ 31) \<or> 2 ^ 31 \<le> \<lfloor>bin_hi self r\<rfloor>"
  shows "spectrum_range self r = None"
  using assms
  by (auto simp: spectrum_range_def int_result_def INT_MIN_def INT_MAX_def ceilf_def floorf_def
      to_int_of_int split: option.splits)

lemma zoom_width_overflow:
  "(case zoom_pane_after (ZOOM_TOGGLE # replicate 25 ZOOM_WIDTH_UP) of
      None \<Rightarrow> False
    | Some r \<Rightarrow> freq_center r = 1 / 2 \<and> freq_span r = 13421773 / 2
               \<and> bin_hi example_fosphor r = 3435974400
               \<and> draw_spectrum example_fosphor r = None)"
  by code_simp

text \<open>
  Claim C6, as amended. For every pane with live or max-hold tracing enabled, with
  \<open>0 < bin_count < 2\<^sup>2\<^sup>4\<close> and \<open>bin_count \<sqdot> (\<bar>center\<bar> + \<bar>span\<bar>/2) \<le> 2\<^sup>2\<^sup>9\<close>, the spectrum block is
  defined and draws the range from \<open>max 1 \<lceil>lo\<rceil>\<close> to \<open>min (bin_count - 1) \<lfloor>hi\<rfloor>\<close>, the bins of
  \<open>[\<lceil>lo\<rceil>, \<lfloor>hi\<rfloor>]\<close> that lie in \<open>[1, bin_count - 1]\<close> (none when the count is not positive), where
  \<open>lo\<close> and \<open>hi\<close> are the products \<open>bin_count \<sqdot> (center - span/2)\<close> and
  \<open>bin_count \<sqdot> (center + span/2)\<close> as the code evaluates them, every operation rounded to single
  precision. Bin 0 is never among them. The live strip runs over these vertices, the
  max-hold strip over the same range in the second half of the buffer. \<open>lo\<close> and \<open>hi\<close> are
  within \<open>bin_count \<sqdot> (\<bar>center\<bar> + \<bar>span\<bar>/2) / 2\<^sup>2\<^sup>2\<close> of the exact products, so that for
  \<open>bin_count \<sqdot> (\<bar>center\<bar> + \<bar>span\<bar>/2) \<le> 2\<^sup>2\<^sup>2\<close> each end of \<open>[\<lceil>lo\<rceil>, \<lfloor>hi\<rfloor>]\<close> is the end of the exact
  formula or one bin off.
\<close>

theorem spectrum_bins:
  assumes "options r AND (FRO_LIVE OR FRO_MAX_HOLD) \<noteq> 0"
    and "0 < fft_len self" and "fft_len self < 2 ^ 24"
    and "of_int (fft_len self) * (\<bar>freq_center r\<bar> + \<bar>freq_span r\<bar> / 2) \<le> 2 ^ 29"
  shows "\<exists>i0 i1 cs.
           spectrum_range self r = Some (i0, i1)
         \<and> i0 = max 1 \<lceil>bin_lo self r\<rceil> \<and> i1 = min (fft_len self - 1) \<lfloor>bin_hi self r\<rfloor>
         \<and> {i0 .. i1} = {\<lceil>bin_lo self r\<rceil> .. \<lfloor>bin_hi self r\<rfloor>} \<inter> {1 .. fft_len self - 1}
         \<and> 0 \<notin> {i0 .. i1}
         \<and> draw_spectrum self r = Some cs
         \<and> cs = (if options r AND FRO_LIVE \<noteq> 0
                  then [Gl_draw_arrays i0 (i1 - i0 + 1)] else [])
                 @ (if options r AND FRO_MAX_HOLD \<noteq> 0
                    then [Gl_draw_arrays (i0 + fft_len self) (i1 - i0 + 1)] else [])
         \<and> map drawn_vertices cs =
             (if options r AND FRO_LIVE \<noteq> 0 then [{i0 .. i1}] else [])
             @ (if options r AND FRO_MAX_HOLD \<noteq> 0
                then [{i0 + fft_len self .. i1 + fft_len self}] else [])
         \<and> \<bar>bin_lo self r - of_int (fft_len self) * (freq_center r - freq_span r / 2)\<bar>
             \<le> of_int (fft_len self) * (\<bar>freq_center r\<bar> + \<bar>freq_span r\<bar> / 2) / 2 ^ 22
         \<and> \<bar>bin_hi self r - of_int (fft_len self) * (freq_center r + freq_span r / 2)\<bar>
             \<le> of_int (fft_len self) * (\<bar>freq_center r\<bar> + \<bar>freq_span r\<bar> / 2) / 2 ^ 22
         \<and> (of_int (fft_len self) * (\<bar>freq_center r\<bar> + \<bar>freq_span r\<bar> / 2) \<le> 2 ^ 22 \<longrightarrow>
               \<bar>\<lceil>bin_lo self r\<rceil> - \<lceil>of_int (fft_len self) * (freq_center r - freq_span r / 2)\<rceil>\<bar> \<le> 1
             \<and> \<bar>\<lfloor>bin_hi self r\<rfloor> - \<lfloor>of_int (fft_len self) * (freq_center r + freq_span r / 2)\<rfloor>\<bar> \<le> 1)"
proof -
  define n :: rat where "n = of_int (fft_len self)"
  define B where "B = n * (\<bar>freq_center r\<bar> + \<bar>freq_span r\<bar> / 2)"
  define xl where "xl = n * (freq_center r - freq_span r / 2)"
  define xh where "xh = n * (freq_center r + freq_span r / 2)"
  define L where "L = \<lceil>bin_lo self r\<rceil>"
  define H where "H = \<lfloor>bin_hi self r\<rfloor>"
  define i0 where "i0 = max 1 L"
  define i1 where "i1 = min (fft_len self - 1) H"
  define cs where "cs =
     (if options r AND FRO_LIVE \<noteq> 0 then [Gl_draw_arrays i0 (i1 - i0 + 1)] else [])
     @ (if options r AND FRO_MAX_HOLD \<noteq> 0
        then [Gl_draw_arrays (i0 + fft_len self) (i1 - i0 + 1)] else [])"
  have n0: "0 \<le> n" "0 \<le> fft_len self"
    using assms(2) by (simp_all add: n_def)
  have el: "\<bar>bin_lo self r - xl\<bar> \<le> B / 2 ^ 22"
    using bin_lo_error [OF n0(2) assms(3)] by (simp add: n_def B_def xl_def)
  have eh: "\<bar>bin_hi self r - xh\<bar> \<le> B / 2 ^ 22"
    using bin_hi_error [OF n0(2) assms(3)] by (simp add: n_def B_def xh_def)
  have B: "B \<le> 2 ^ 29"
    using assms(4) by (simp add: n_def B_def)
  have x: "\<bar>xl\<bar> \<le> B" "\<bar>xh\<bar> \<le> B"
    unfolding xl_def xh_def B_def using n0(1) by (rule exact_magnitude)+
  have ml: "- 536871040 \<le> \<lfloor>bin_lo self r\<rfloor> \<and> L \<le> 536871040"
    unfolding L_def using el x(1) B by (rule bin_magnitude)
  have mh: "- 536871040 \<le> H \<and> \<lceil>bin_hi self r\<rceil> \<le> 536871040"
    unfolding H_def using eh x(2) B by (rule bin_magnitude)
  have fc: "\<lfloor>bin_lo self r\<rfloor> \<le> L" "H \<le> \<lceil>bin_hi self r\<rceil>"
    by (simp_all add: L_def H_def floor_le_ceiling)
  have b: "- 536871040 \<le> L" "L \<le> 536871040" "- 536871040 \<le> H" "H \<le> 536871040"
    using ml mh fc by linarith+
  have rng: "spectrum_range self r = Some (i0, i1)"
    unfolding i0_def i1_def L_def H_def
    using assms(2,3) b [unfolded L_def H_def] by (rule spectrum_range_defined)
  have i: "1 \<le> i0" "i0 \<le> 536871040" "- 536871040 \<le> i1" "i1 < fft_len self"
    using b assms(2) by (simp_all add: i0_def i1_def)
  have dr: "draw_spectrum self r = Some cs"
    unfolding cs_def using assms(1) rng assms(2,3) i by (rule draw_spectrum_defined)
  have v2: "drawn_vertices (Gl_draw_arrays (i0 + fft_len self) (i1 - i0 + 1)) =
              {i0 + fft_len self .. i1 + fft_len self}"
    using strip_vertices [of "i0 + fft_len self" "i1 + fft_len self"] by simp
  have mp: "map drawn_vertices cs =
             (if options r AND FRO_LIVE \<noteq> 0 then [{i0 .. i1}] else [])
             @ (if options r AND FRO_MAX_HOLD \<noteq> 0
                then [{i0 + fft_len self .. i1 + fft_len self}] else [])"
    unfolding cs_def by (simp add: v2 strip_vertices del: drawn_vertices.simps)
  have st: "{i0 .. i1} = {L .. H} \<inter> {1 .. fft_len self - 1}"
    by (auto simp: i0_def i1_def)
  have z: "0 \<notin> {i0 .. i1}"
    using i(1) by simp
  have one: "B \<le> 2 ^ 22 \<longrightarrow> \<bar>L - \<lceil>xl\<rceil>\<bar> \<le> 1 \<and> \<bar>H - \<lfloor>xh\<rfloor>\<bar> \<le> 1"
  proof
    assume "B \<le> 2 ^ 22"
    then have "B / 2 ^ 22 \<le> 1" by simp
    with el eh have "\<bar>bin_lo self r - xl\<bar> \<le> 1" "\<bar>bin_hi self r - xh\<bar> \<le> 1"
      by linarith+
    then show "\<bar>L - \<lceil>xl\<rceil>\<bar> \<le> 1 \<and> \<bar>H - \<lfloor>xh\<rfloor>\<bar> \<le> 1"
      unfolding L_def H_def using ends_within_one by blast
  qed
  show ?thesis
  proof (intro exI conjI)
    show "spectrum_range self r = Some (i0, i1)" by (rule rng)
    show "i0 = max 1 \<lceil>bin_lo self r\<rceil>" by (simp only: i0_def L_def)
    show "i1 = min (fft_len self - 1) \<lfloor>bin_hi self r\<rfloor>" by (simp only: i1_def H_def)
    show "{i0 .. i1} = {\<lceil>bin_lo self r\<rceil> .. \<lfloor>bin_hi self r\<rfloor>} \<inter> {1 .. fft_len self - 1}"
      using st by (simp only: L_def H_def)
    show "0 \<notin> {i0 .. i1}" by (rule z)
    show "draw_spectrum self r = Some cs" by (rule dr)
    show "cs = (if options r AND FRO_LIVE \<noteq> 0
                  then [Gl_draw_arrays i0 (i1 - i0 + 1)] else [])
                 @ (if options r AND FRO_MAX_HOLD \<noteq> 0
                    then [Gl_draw_arrays (i0 + fft_len self) (i1 - i0 + 1)] else [])"
      by (rule cs_def)
    show "map drawn_vertices cs =
             (if options r AND FRO_LIVE \<noteq> 0 then [{i0 .. i1}] else [])
             @ (if options r AND FRO_MAX_HOLD \<noteq> 0
                then [{i0 + fft_len self .. i1 + fft_len self}] else [])" by (rule mp)
    show "\<bar>bin_lo self r - of_int (fft_len self) * (freq_center r - freq_span r / 2)\<bar>
             \<le> of_int (fft_len self) * (\<bar>freq_center r\<bar> + \<bar>freq_span r\<bar> / 2) / 2 ^ 22"
      using el by (simp only: xl_def B_def n_def)
    show "\<bar>bin_hi self r - of_int (fft_len self) * (freq_center r + freq_span r / 2)\<bar>
             \<le> of_int (fft_len self) * (\<bar>freq_center r\<bar> + \<bar>freq_span r\<bar> / 2) / 2 ^ 22"
      using eh by (simp only: xh_def B_def n_def)
    show "of_int (fft_len self) * (\<bar>freq_center r\<bar> + \<bar>freq_span r\<bar> / 2) \<le> 2 ^ 22 \<longrightarrow>
               \<bar>\<lceil>bin_lo self r\<rceil> - \<lceil>of_int (fft_len self) * (freq_center r - freq_span r / 2)\<rceil>\<bar> \<le> 1
             \<and> \<bar>\<lfloor>bin_hi self r\<rfloor> - \<lfloor>of_int (fft_len self) * (freq_center r + freq_span r / 2)\<rfloor>\<bar> \<le> 1"
      using one by (simp only: xl_def xh_def B_def n_def L_def H_def)
  qed
qed

text \<open>
  The ends are not always those of the exact formula. After \<open>ZOOM_TOGGLE\<close> and
  \<open>ZOOM_CENTER_UP\<close> the zoom pane holds the centre \<open>(float)0.525 = 0.52499997\<dots>\<close> and the span
  \<open>(float)0.2 = 0.20000000298\<dots>\<close>. The exact sum \<open>center + span/2\<close> is \<open>0.62499997764\<dots>\<close>, which
  rounds to the single-precision number \<open>0.625\<close>, so the code gets \<open>hi = 640\<close> and draws the bins
  436 to 640, while \<open>1024 \<sqdot> (center + span/2) = 639.99997\<dots>\<close> and the exact formula ends at 639.
\<close>

theorem spectrum_bins_cex:
  "(case zoom_pane_after [ZOOM_TOGGLE, ZOOM_CENTER_UP] of
      None \<Rightarrow> False
    | Some r \<Rightarrow>
        options r AND (FRO_LIVE OR FRO_MAX_HOLD) \<noteq> 0
      \<and> freq_center r = 4404019 / 8388608 \<and> freq_span r = 13421773 / 67108864
      \<and> spectrum_range example_fosphor r = Some (436, 640)
      \<and> draw_spectrum example_fosphor r
          = Some [Gl_draw_arrays 436 205, Gl_draw_arrays 1460 205]
      \<and> \<lceil>1024 * (freq_center r - freq_span r / 2)\<rceil> = 436
      \<and> \<lfloor>1024 * (freq_center r + freq_span r / 2)\<rfloor> = 639)"
  by code_simp

theorem spectrum_bins_witness:
  "options example_render AND (FRO_LIVE OR FRO_MAX_HOLD) \<noteq> 0
   \<and> 0 < fft_len example_fosphor \<and> fft_len example_fosphor < 2 ^ 24
   \<and> of_int (fft_len example_fosphor)
       * (\<bar>freq_center example_render\<bar> + \<bar>freq_span example_render\<bar> / 2) \<le> (2 ^ 22 :: rat)
   \<and> spectrum_range example_fosphor example_render = Some (1, 1023)
   \<and> map_option (map drawn_vertices) (draw_spectrum example_fosphor example_render) =
       Some [{1 .. 1023}, {1025 .. 2047}]
   \<and> \<bar>bin_lo example_fosphor example_render\<bar> \<le> 1 / 4096
   \<and> \<bar>bin_hi example_fosphor example_render - 1024\<bar> \<le> 1 / 4096
   \<and> \<bar>\<lceil>bin_lo example_fosphor example_render\<rceil>\<bar> \<le> 1
   \<and> \<bar>\<lfloor>bin_hi example_fosphor example_render\<rfloor> - 1024\<bar> \<le> 1"
proof -
  have f: "options example_render AND FRO_LIVE \<noteq> 0"
    "options example_render AND FRO_MAX_HOLD \<noteq> 0"
    by code_simp+
  have n: "fft_len example_fosphor = 1024" "freq_center example_render = 1 / 2"
    "freq_span example_render = 1"
    by (simp_all add: example_fosphor_def example_render_def)
  have h: "0 < fft_len example_fosphor" "fft_len example_fosphor < 2 ^ 24"
    "of_int (fft_len example_fosphor)
       * (\<bar>freq_center example_render\<bar> + \<bar>freq_span example_render\<bar> / 2) \<le> (2 ^ 29 :: rat)"
    and h22: "of_int (fft_len example_fosphor)
       * (\<bar>freq_center example_render\<bar> + \<bar>freq_span example_render\<bar> / 2) \<le> (2 ^ 22 :: rat)"
    by (simp_all add: n)
  from spectrum_bins [OF ex_opts2 h]
  obtain i0 i1 cs where r: "spectrum_range example_fosphor example_render = Some (i0, i1)"
    and d: "draw_spectrum example_fosphor example_render = Some cs"
    and v: "map drawn_vertices cs =
             (if options example_render AND FRO_LIVE \<noteq> 0 then [{i0 .. i1}] else [])
             @ (if options example_render AND FRO_MAX_HOLD \<noteq> 0
                then [{i0 + fft_len example_fosphor .. i1 + fft_len example_fosphor}] else [])"
    and e: "\<bar>bin_lo example_fosphor example_render
              - of_int (fft_len example_fosphor)
                * (freq_center example_render - freq_span example_render / 2)\<bar>
            \<le> of_int (fft_len example_fosphor)
                * (\<bar>freq_center example_render\<bar> + \<bar>freq_span example_render\<bar> / 2) / 2 ^ 22"
      "\<bar>bin_hi example_fosphor example_render
              - of_int (fft_len example_fosphor)
                * (freq_center example_render + freq_span example_render / 2)\<bar>
            \<le> of_int (fft_len example_fosphor)
                * (\<bar>freq_center example_render\<bar> + \<bar>freq_span example_render\<bar> / 2) / 2 ^ 22"
    and o: "of_int (fft_len example_fosphor)
              * (\<bar>freq_center example_render\<bar> + \<bar>freq_span example_render\<bar> / 2) \<le> (2 ^ 22 :: rat)
            \<longrightarrow> \<bar>\<lceil>bin_lo example_fosphor example_render\<rceil>
                   - \<lceil>of_int (fft_len example_fosphor)
                       * (freq_center example_render - freq_span example_render / 2)\<rceil>\<bar> \<le> 1
              \<and> \<bar>\<lfloor>bin_hi example_fosphor example_render\<rfloor>
                   - \<lfloor>of_int (fft_len example_fosphor)
                       * (freq_center example_render + freq_span example_render / 2)\<rfloor>\<bar> \<le> 1"
    by blast
  from r ex_rng have i: "i0 = 1" "i1 = 1023" by simp_all
  have dv: "map_option (map drawn_vertices) (draw_spectrum example_fosphor example_render) =
       Some [{1 .. 1023}, {1025 .. 2047}]"
    using v by (simp add: d f i n(1))
  have e1: "\<bar>bin_lo example_fosphor example_render\<bar> \<le> 1 / 4096"
    "\<bar>bin_hi example_fosphor example_render - 1024\<bar> \<le> 1 / 4096"
    using e by (simp_all add: n)
  have o1: "\<bar>\<lceil>bin_lo example_fosphor example_render\<rceil>\<bar> \<le> 1"
    "\<bar>\<lfloor>bin_hi example_fosphor example_render\<rfloor> - 1024\<bar> \<le> 1"
    using o h22 by (simp_all add: n)
  show ?thesis
    using ex_opts2 h(1,2) h22 ex_rng dv e1 o1 by (intro conjI)
qed


subsection \<open>The pane-height ratio\<close>

lemma ratio_up_values:
  "ratio_up (6710885 / 33554432) = 16777213 / 67108864"
  "ratio_up (3355443 / 16777216) = 16777215 / 67108864"
  "ratio_up (16777213 / 67108864) = 1258291 / 4194304"
  "ratio_up (16777215 / 67108864) = 10066329 / 33554432"
  "ratio_up (1258291 / 4194304) = 5872025 / 16777216"
  "ratio_up (10066329 / 33554432) = 11744051 / 33554432"
  "ratio_up (5872025 / 16777216) = 3355443 / 8388608"
  "ratio_up (11744051 / 33554432) = 13421773 / 33554432"
  "ratio_up (3355443 / 8388608) = 7549747 / 16777216"
  "ratio_up (13421773 / 33554432) = 15099495 / 33554432"
  "ratio_up (7549747 / 16777216) = 1 / 2"
  "ratio_up (15099495 / 33554432) = 1 / 2"
  "ratio_up (1 / 2) = 9227469 / 16777216"
  "ratio_up (9227469 / 16777216) = 5033165 / 8388608"
  "ratio_up (5033165 / 8388608) = 10905191 / 16777216"
  "ratio_up (10905191 / 16777216) = 2936013 / 4194304"
  "ratio_up (2936013 / 4194304) = 12582913 / 16777216"
  "ratio_up (12582913 / 16777216) = 6710887 / 8388608"
  "ratio_up (6710887 / 8388608) = 6710887 / 8388608"
  by code_simp+

lemma ratio_down_values:
  "ratio_down (6710885 / 33554432) = 6710885 / 33554432"
  "ratio_down (3355443 / 16777216) = 3355443 / 16777216"
  "ratio_down (16777213 / 67108864) = 6710885 / 33554432"
  "ratio_down (16777215 / 67108864) = 3355443 / 16777216"
  "ratio_down (1258291 / 4194304) = 16777213 / 67108864"
  "ratio_down (10066329 / 33554432) = 16777215 / 67108864"
  "ratio_down (5872025 / 16777216) = 1258291 / 4194304"
  "ratio_down (11744051 / 33554432) = 10066329 / 33554432"
  "ratio_down (3355443 / 8388608) = 5872025 / 16777216"
  "ratio_down (13421773 / 33554432) = 11744051 / 33554432"
  "ratio_down (7549747 / 16777216) = 3355443 / 8388608"
  "ratio_down (15099495 / 33554432) = 13421773 / 33554432"
  "ratio_down (1 / 2) = 7549747 / 16777216"
  "ratio_down (9227469 / 16777216) = 1 / 2"
  "ratio_down (5033165 / 8388608) = 9227469 / 16777216"
  "ratio_down (10905191 / 16777216) = 5033165 / 8388608"
  "ratio_down (2936013 / 4194304) = 10905191 / 16777216"
  "ratio_down (12582913 / 16777216) = 2936013 / 4194304"
  "ratio_down (6710887 / 8388608) = 12582913 / 16777216"
  by code_simp+

lemma ratio_values_closed:
  "list_all (\<lambda>r. ratio_up r \<in> set ratio_values \<and> ratio_down r \<in> set ratio_values) ratio_values"
  unfolding ratio_values_def by (simp add: ratio_up_values ratio_down_values)

lemma ratio_values_step:
  "list_all (\<lambda>r. (ratio_up r = r \<or> \<bar>ratio_up r - r - 1 / 20\<bar> < 1 / 10 ^ 7)
               \<and> (ratio_down r = r \<or> \<bar>r - ratio_down r - 1 / 20\<bar> < 1 / 10 ^ 7)) ratio_values"
  unfolding ratio_values_def by (simp add: ratio_up_values ratio_down_values)

lemma ratio_values_bounds:
  "list_all (\<lambda>r. 1 / 5 - 1 / 10 ^ 7 < r \<and> r < 4 / 5 + 1 / 10 ^ 7) ratio_values"
  unfolding ratio_values_def by simp

lemma ratio_init: "f32r (7 / 20) = 11744051 / 33554432"
  by code_simp

lemma ui_switch_ratio_case:
  "(case ui_switch a s of
      None \<Rightarrow> True
    | Some s' \<Rightarrow>
        d_ratio s' = (if a = RATIO_UP then ratio_up (d_ratio s)
                      else if a = RATIO_DOWN then ratio_down (d_ratio s) else d_ratio s))"
  by (cases a) (simp_all add: ratio_up_def ratio_down_def split: option.splits)

lemma execute_ui_action_ratio:
  "execute_ui_action a s = Some s' \<Longrightarrow>
     d_ratio s' = (if a = RATIO_UP then ratio_up (d_ratio s)
                   else if a = RATIO_DOWN then ratio_down (d_ratio s) else d_ratio s)"
proof -
  assume e: "execute_ui_action a s = Some s'"
  then obtain s1 where s1: "ui_switch a s = Some s1"
    and s': "s' = settings_mark_changed (SETTING_POWER_RANGE OR SETTING_RENDER_OPTIONS) s1"
    by (cases "ui_switch a s") (simp_all add: execute_ui_action_def)
  have "d_ratio s' = d_ratio s1"
    unfolding s' by (simp add: settings_mark_changed_def)
  with ui_switch_ratio_case [of a s] s1 show ?thesis by simp
qed

lemma execute_ui_action_ratio_ok:
  assumes "execute_ui_action a s = Some s'" and "ratio_ok s"
  shows "ratio_ok s'"
proof -
  from assms(2) ratio_values_closed
  have "ratio_up (d_ratio s) \<in> set ratio_values \<and> ratio_down (d_ratio s) \<in> set ratio_values"
    unfolding ratio_ok_def list_all_iff by blast
  with assms show ?thesis
    by (simp add: ratio_ok_def execute_ui_action_ratio)
qed

lemma execute_ui_actions_ratio_ok:
  "idx_ok s \<Longrightarrow> ratio_ok s \<Longrightarrow>
     \<exists>s'. execute_ui_actions as s = Some s' \<and> idx_ok s' \<and> ratio_ok s'"
proof (induction as arbitrary: s)
  case Nil
  then show ?case by simp
next
  case (Cons a as)
  from execute_ui_action_idx_ok [OF Cons.prems(1), of a]
  obtain s1 where s1: "execute_ui_action a s = Some s1" "idx_ok s1" by blast
  from execute_ui_action_ratio_ok [OF s1(1) Cons.prems(2)] have "ratio_ok s1" .
  from Cons.IH [OF s1(2) this] s1(1) show ?case by simp
qed

text \<open>
  Claim C3, as amended. The ratio is a \<^verbatim>\<open>float\<close> stepped by \<^verbatim>\<open>0.05f\<close> under the guards
  \<^verbatim>\<open>< 0.8f\<close> and \<^verbatim>\<open>> 0.2f\<close>. From the constructor's state, after any sequence of UI actions
  (in particular of \<open>RATIO_UP\<close> and \<open>RATIO_DOWN\<close>) the ratio is one of 19 single-precision
  values, all within \<open>10\<^sup>-\<^sup>7\<close> of the interval \<open>[0.2, 0.8]\<close>, and a further action leaves it
  unchanged or, for \<open>RATIO_UP\<close> and \<open>RATIO_DOWN\<close>, changes it by \<open>0.05\<close> up to \<open>10\<^sup>-\<^sup>7\<close>.
\<close>

theorem ratio_range:
  "\<exists>s. execute_ui_actions as (base_sink_c_impl w h sc rd) = Some s
       \<and> d_ratio s \<in> set ratio_values
       \<and> 1 / 5 - 1 / 10 ^ 7 < d_ratio s \<and> d_ratio s < 4 / 5 + 1 / 10 ^ 7
       \<and> (\<exists>s'. execute_ui_action a s = Some s'
             \<and> (d_ratio s' = d_ratio s
                 \<or> a = RATIO_UP \<and> \<bar>d_ratio s' - d_ratio s - 1 / 20\<bar> < 1 / 10 ^ 7
                 \<or> a = RATIO_DOWN \<and> \<bar>d_ratio s - d_ratio s' - 1 / 20\<bar> < 1 / 10 ^ 7))"
proof -
  let ?i = "base_sink_c_impl w h sc rd"
  have "idx_ok ?i" "ratio_ok ?i"
    by (simp_all add: idx_ok_def ratio_ok_def base_sink_c_impl_def ratio_init ratio_values_def)
  then obtain s where s: "execute_ui_actions as ?i = Some s" "idx_ok s" "ratio_ok s"
    using execute_ui_actions_ratio_ok by blast
  from execute_ui_action_idx_ok [OF s(2), of a]
  obtain s' where s': "execute_ui_action a s = Some s'" by blast
  from s(3) ratio_values_bounds
  have b: "1 / 5 - 1 / 10 ^ 7 < d_ratio s \<and> d_ratio s < 4 / 5 + 1 / 10 ^ 7"
    unfolding ratio_ok_def list_all_iff by blast
  from s(3) ratio_values_step
  have st: "(ratio_up (d_ratio s) = d_ratio s
              \<or> \<bar>ratio_up (d_ratio s) - d_ratio s - 1 / 20\<bar> < 1 / 10 ^ 7)
            \<and> (ratio_down (d_ratio s) = d_ratio s
              \<or> \<bar>d_ratio s - ratio_down (d_ratio s) - 1 / 20\<bar> < 1 / 10 ^ 7)"
    unfolding ratio_ok_def list_all_iff by blast
  have "d_ratio s' = d_ratio s
        \<or> a = RATIO_UP \<and> \<bar>d_ratio s' - d_ratio s - 1 / 20\<bar> < 1 / 10 ^ 7
        \<or> a = RATIO_DOWN \<and> \<bar>d_ratio s - d_ratio s' - 1 / 20\<bar> < 1 / 10 ^ 7"
    using st by (auto simp: execute_ui_action_ratio [OF s'])
  with s s' b show ?thesis
    unfolding ratio_ok_def by blast
qed

text \<open>
  The interval itself is left: nine \<open>RATIO_UP\<close> from the initial \<^verbatim>\<open>0.35f\<close> end at
  \<open>6710887 / 2\<^sup>2\<^sup>3 = 0.80000007\<dots>\<close>, above \<open>0.8\<close> (and above \<^verbatim>\<open>0.8f\<close>); the guard \<^verbatim>\<open>d_ratio < 0.8f\<close>
  let the ninth step pass at \<open>0.75000006\<dots>\<close>.
\<close>

theorem ratio_range_cex:
  "map_option d_ratio (execute_ui_actions (replicate 9 RATIO_UP) example_sink)
     = Some (6710887 / 8388608)
   \<and> (4 / 5 :: rat) < 6710887 / 8388608"
  by code_simp


subsection \<open>Pane layout\<close>

lemma floor_13_20: "\<lfloor>13 / 20 * (of_int W :: rat)\<rfloor> = 13 * W div 20"
proof -
  have "13 / 20 * (of_int W :: rat) = of_int (13 * W) / of_int 20" by simp
  then show ?thesis by (simp only: floor_divide_of_int_eq)
qed

lemma layout_width:
  "width (d_render_main (layout s)) =
     (if d_zoom_enabled s then to_int (f32r (f32r (of_int (d_width s)) * f32r (13 / 20)))
      else d_width s)
   \<and> (d_zoom_enabled s \<longrightarrow>
        width (d_render_zoom (layout s)) = d_width s - width (d_render_main (layout s)) + 10)"
  by (simp add: layout_def Let_def log_calls_def)

lemma settings_apply_layout:
  assumes "settings AND (SETTING_DIMENSIONS OR SETTING_RENDER_OPTIONS) \<noteq> 0"
    and "settings_apply settings s = Some s'"
  shows "\<exists>s1. s' = layout s1 \<and> d_width s1 = d_width s \<and> d_zoom_enabled s1 = d_zoom_enabled s"
  using assms
  by (auto simp: settings_apply_def Let_def log_calls_def split: option.splits if_splits)

text \<open>
  Claim C2, as amended. The layout recompute of \<open>settings_apply\<close> (run when dimensions or
  render options are pending) sets, when zoom is enabled, the main pane width to the
  truncation of the single-precision product \<open>W \<times> 0.65f\<close> and the zoom pane width to \<open>W\<close>
  minus the main pane width plus 10; for \<open>0 \<le> W < 2\<^sup>1\<^sup>9\<close> the main pane width is
  \<open>\<lfloor>0.65 \<sqdot> W\<rfloor>\<close> or one less. When zoom is disabled the main pane width is \<open>W\<close>.
\<close>

theorem layout_widths:
  assumes "settings AND (SETTING_DIMENSIONS OR SETTING_RENDER_OPTIONS) \<noteq> 0" and "idx_ok s"
  shows "\<exists>s'. settings_apply settings s = Some s'
          \<and> (if d_zoom_enabled s
              then width (d_render_main s') =
                     to_int (f32r (f32r (of_int (d_width s)) * f32r (13 / 20)))
                 \<and> width (d_render_zoom s') = d_width s - width (d_render_main s') + 10
                 \<and> (0 \<le> d_width s \<and> d_width s < 2 ^ 19 \<longrightarrow>
                      \<lfloor>13 / 20 * (of_int (d_width s) :: rat)\<rfloor> - 1 \<le> width (d_render_main s')
                      \<and> width (d_render_main s') \<le> \<lfloor>13 / 20 * (of_int (d_width s) :: rat)\<rfloor>)
              else width (d_render_main s') = d_width s)"
proof -
  from settings_apply_idx_ok [OF assms(2), of settings]
  obtain s' where s': "settings_apply settings s = Some s'" by blast
  from settings_apply_layout [OF assms(1) s']
  obtain s1 where s1: "s' = layout s1" "d_width s1 = d_width s"
    "d_zoom_enabled s1 = d_zoom_enabled s" by blast
  show ?thesis
    unfolding floor_13_20
    using layout_width [of s1] main_width_bounds [of "d_width s"]
    by (auto simp: s' s1)
qed

lemma width_1440: "to_int (f32r (f32r 1440 * f32r (13 / 20))) = 935"
  by code_simp


text \<open>
  The width is not always \<open>\<lfloor>0.65 \<sqdot> W\<rfloor>\<close>. The constant \<^verbatim>\<open>0.65f\<close> is \<open>5452595 / 2\<^sup>2\<^sup>3\<close>, just below
  \<open>0.65\<close>; at \<open>W = 1440\<close> the exact product is \<open>935.99996\<dots>\<close>, between the neighbouring
  single-precision numbers \<open>936 - 2\<^sup>-\<^sup>1\<^sup>4\<close> and \<open>936\<close> and nearer to the first, so the product is
  \<open>935.99993\<dots>\<close> and truncates to 935, while \<open>\<lfloor>0.65 \<sqdot> 1440\<rfloor> = 936\<close>.
\<close>

theorem layout_widths_cex:
  "map_option (\<lambda>s. width (d_render_main s))
     (settings_apply SETTING_DIMENSIONS (example_sink\<lparr>d_zoom_enabled := True\<rparr>)) = Some 935
   \<and> \<lfloor>13 / 20 * (1440 :: rat)\<rfloor> = 936"
proof -
  have "k_db_per_div_at 3 = Some 10"
    by (simp add: k_db_per_div_at_def k_db_per_div_def)
  then show ?thesis
    by (simp add: settings_apply_def layout_def Let_def log_calls_def example_sink_def
        base_sink_c_impl_def width_1440 SETTING_DIMENSIONS_def SETTING_POWER_RANGE_def
        SETTING_FREQUENCY_RANGE_def SETTING_FFT_WINDOW_def SETTING_FFT_SIZE_def
        SETTING_RENDER_OPTIONS_def)
qed

theorem layout_widths_witness:
  "(\<exists>s'. settings_apply SETTING_DIMENSIONS (example_sink\<lparr>d_zoom_enabled := True\<rparr>) = Some s'
         \<and> width (d_render_main s') = 935 \<and> width (d_render_zoom s') = 515)
   \<and> (\<exists>s'. settings_apply SETTING_DIMENSIONS example_sink = Some s'
         \<and> width (d_render_main s') = 1440)"
proof -
  have b: "SETTING_DIMENSIONS AND (SETTING_DIMENSIONS OR SETTING_RENDER_OPTIONS) \<noteq> 0"
    by (simp add: SETTING_DIMENSIONS_def SETTING_RENDER_OPTIONS_def)
  have i: "idx_ok example_sink" "idx_ok (example_sink\<lparr>d_zoom_enabled := True\<rparr>)"
    by (simp_all add: idx_ok_def example_sink_def base_sink_c_impl_def)
  have w: "d_width example_sink = 1440" "\<not> d_zoom_enabled example_sink"
    by (simp_all add: example_sink_def base_sink_c_impl_def)
  from layout_widths [OF b i(2)] layout_widths [OF b i(1)]
  show ?thesis
    by (auto simp: w width_1440)
qed


subsection \<open>Channel overlay\<close>

lemma min_index_fold:
  fixes ps :: "pt list"
  assumes "n \<le> length ps" and "0 < length ps"
  shows "fold (\<lambda>j mi. if snd (ps ! j) < snd (ps ! mi) then j else mi) [1..<n] 0 < length ps
         \<and> (\<forall>j < n. snd (ps ! fold (\<lambda>j mi. if snd (ps ! j) < snd (ps ! mi) then j else mi) [1..<n] 0)
                        \<le> snd (ps ! j))"
  using assms
proof (induction n)
  case 0
  then show ?case by simp
next
  case (Suc n)
  show ?case
  proof (cases "n = 0")
    case True
    with Suc.prems show ?thesis by simp
  next
    case False
    then have u: "[1..<Suc n] = [1..<n] @ [n]" by simp
    from Suc.IH Suc.prems
    have ih: "fold (\<lambda>j mi. if snd (ps ! j) < snd (ps ! mi) then j else mi) [1..<n] 0 < length ps"
      "\<forall>j < n. snd (ps ! fold (\<lambda>j mi. if snd (ps ! j) < snd (ps ! mi) then j else mi) [1..<n] 0)
                        \<le> snd (ps ! j)"
      by simp_all
    show ?thesis
      unfolding u fold_append
      using ih Suc.prems by (auto simp: less_Suc_eq)
  qed
qed

lemma min_index_less: "ps \<noteq> [] \<Longrightarrow> min_index ps < length ps"
  using min_index_fold [of "length ps" ps] by (simp add: min_index_def)

lemma min_index_least: "q \<in> set ps \<Longrightarrow> snd (ps ! min_index ps) \<le> snd q"
proof -
  assume "q \<in> set ps"
  then obtain j where j: "j < length ps" "ps ! j = q" by (auto simp: in_set_conv_nth)
  then have "0 < length ps" by (cases ps) simp_all
  from min_index_fold [OF le_refl this] j show ?thesis
    unfolding min_index_def by blast
qed

lemma swap_out_mset:
  assumes "mi < length (p # ps)"
  shows "mset (((p # ps) ! mi) # tl ((p # ps)[mi := p])) = mset (p # ps)"
proof (cases mi)
  case 0
  then show ?thesis by simp
next
  case (Suc k)
  with assms have k: "k < length ps" by simp
  then have "ps ! k \<in># mset ps" by simp
  then show ?thesis
    using k by (simp add: Suc mset_update)
qed


lemma dir_sum_mset: "mset ps = mset ps' \<Longrightarrow> dir_sum x ps = dir_sum x ps'"
proof -
  assume a: "mset ps = mset ps'"
  have "dir_sum x qs = sum_mset (image_mset fst (filter_mset (\<lambda>q. snd q \<le> x) (mset qs)))"
    for qs :: "pt list"
    unfolding dir_sum_def by (metis mset_filter mset_map sum_mset_sum_list)
  with a show ?thesis by simp
qed

lemma dir_sum_Cons:
  "dir_sum x (q # qs) = (if snd q \<le> x then fst q else 0) + dir_sum x qs"
  by (simp add: dir_sum_def)

lemma dir_sum_none: "\<forall>q \<in> set ps. x < snd q \<Longrightarrow> dir_sum x ps = 0"
  by (induction ps) (simp_all add: dir_sum_def)

lemma sweep_step:
  fixes p :: pt
  assumes "c = (p # ps) ! min_index (p # ps)" and "r = tl ((p # ps)[min_index (p # ps) := p])"
  shows "sweep prev l (p # ps) =
           (if snd prev \<noteq> snd c \<and> l \<noteq> 0 then [(snd prev, snd c, l)] else [])
           @ sweep c (l + fst c) r"
    and "mset (c # r) = mset (p # ps)"
    and "\<forall>q \<in> set (p # ps). snd c \<le> snd q"
    and "length r = length ps"
proof -
  show "sweep prev l (p # ps) =
           (if snd prev \<noteq> snd c \<and> l \<noteq> 0 then [(snd prev, snd c, l)] else [])
           @ sweep c (l + fst c) r"
    by (simp add: assms Let_def)
  have "min_index (p # ps) < length (p # ps)" by (rule min_index_less) simp
  then show "mset (c # r) = mset (p # ps)"
    unfolding assms by (rule swap_out_mset)
  show "\<forall>q \<in> set (p # ps). snd c \<le> snd q"
    unfolding assms using min_index_least by blast
  show "length r = length ps"
    by (simp add: assms split: nat.splits)
qed

lemma sweep_sound:
  assumes "\<forall>q \<in> set ps. snd prev \<le> snd q" and "(a, b, l') \<in> set (sweep prev l ps)"
  shows "a < b \<and> snd prev \<le> a \<and> (\<forall>q \<in> set ps. snd q \<le> a \<or> b \<le> snd q)
         \<and> l' = l + dir_sum a ps \<and> l' \<noteq> 0"
  using assms
proof (induction "length ps" arbitrary: ps prev l)
  case 0
  then show ?case by simp
next
  case (Suc n)
  then obtain p ps' where ps: "ps = p # ps'" by (cases ps) simp_all
  define c where "c = (p # ps') ! min_index (p # ps')"
  define r where "r = tl ((p # ps')[min_index (p # ps') := p])"
  note st = sweep_step [OF c_def r_def]
  have m: "mset (c # r) = mset ps" using st(2) by (simp add: ps)
  then have s: "set ps = insert c (set r)" by (metis list.simps(15) mset_eq_setD)
  have least: "\<forall>q \<in> set ps. snd c \<le> snd q" using st(3) by (simp add: ps)
  have pc: "snd prev \<le> snd c" using Suc.prems(1) s by simp
  from Suc.prems(2) consider
      (first) "snd prev \<noteq> snd c" "l \<noteq> 0" "(a, b, l') = (snd prev, snd c, l)"
    | (later) "(a, b, l') \<in> set (sweep c (l + fst c) r)"
    unfolding ps st(1) by (auto split: if_splits)
  then show ?case
  proof cases
    case first
    then have ab: "a = snd prev" "b = snd c" "l' = l" by simp_all
    have "\<forall>q \<in> set ps. a < snd q" using least pc first(1) by (auto simp: ab)
    then have "dir_sum a ps = 0" by (rule dir_sum_none)
    with first least pc show ?thesis by (auto simp: ab)
  next
    case later
    have len: "n = length r" using st(4) Suc.hyps(2) by (simp add: ps)
    have pre: "\<forall>q \<in> set r. snd c \<le> snd q" using least s by simp
    from Suc.hyps(1) [OF len pre later]
    have ih: "a < b" "snd c \<le> a" "\<forall>q \<in> set r. snd q \<le> a \<or> b \<le> snd q"
      "l' = l + fst c + dir_sum a r" "l' \<noteq> 0" by simp_all
    have "dir_sum a ps = dir_sum a (c # r)" using m by (rule dir_sum_mset [symmetric])
    then have "dir_sum a ps = fst c + dir_sum a r" using ih(2) by (simp add: dir_sum_Cons)
    with ih pc show ?thesis by (auto simp: s)
  qed
qed

lemma sweep_complete:
  assumes "\<forall>q \<in> set ps. snd prev \<le> snd q" and "snd prev \<le> x"
    and "\<exists>q \<in> set ps. x < snd q" and "l + dir_sum x ps \<noteq> 0"
  shows "\<exists>a b l'. (a, b, l') \<in> set (sweep prev l ps) \<and> a \<le> x \<and> x < b"
  using assms
proof (induction "length ps" arbitrary: ps prev l)
  case 0
  then show ?case by simp
next
  case (Suc n)
  then obtain p ps' where ps: "ps = p # ps'" by (cases ps) simp_all
  define c where "c = (p # ps') ! min_index (p # ps')"
  define r where "r = tl ((p # ps')[min_index (p # ps') := p])"
  note st = sweep_step [OF c_def r_def]
  have m: "mset (c # r) = mset ps" using st(2) by (simp add: ps)
  then have s: "set ps = insert c (set r)" by (metis list.simps(15) mset_eq_setD)
  have least: "\<forall>q \<in> set ps. snd c \<le> snd q" using st(3) by (simp add: ps)
  show ?case
  proof (cases "x < snd c")
    case True
    then have "\<forall>q \<in> set ps. x < snd q" using least by fastforce
    then have "dir_sum x ps = 0" by (rule dir_sum_none)
    with Suc.prems(4) have "l \<noteq> 0" by simp
    moreover have "snd prev \<noteq> snd c" using True Suc.prems(2) by simp
    ultimately have "(snd prev, snd c, l) \<in> set (sweep prev l ps)"
      unfolding ps st(1) by simp
    with True Suc.prems(2) show ?thesis by blast
  next
    case False
    have len: "n = length r" using st(4) Suc.hyps(2) by (simp add: ps)
    have pre: "\<forall>q \<in> set r. snd c \<le> snd q" using least s by simp
    have cx: "snd c \<le> x" using False by simp
    have ex: "\<exists>q \<in> set r. x < snd q" using Suc.prems(3) cx by (auto simp: s)
    have "dir_sum x ps = dir_sum x (c # r)" using m by (rule dir_sum_mset [symmetric])
    then have "dir_sum x ps = fst c + dir_sum x r" using cx by (simp add: dir_sum_Cons)
    with Suc.prems(4) have nz: "l + fst c + dir_sum x r \<noteq> 0" by simp
    from Suc.hyps(1) [OF len pre cx ex nz]
    obtain a b l' where "(a, b, l') \<in> set (sweep c (l + fst c) r)" "a \<le> x" "x < b" by blast
    then have "(a, b, l') \<in> set (sweep prev l ps)" unfolding ps st(1) by simp
    with \<open>a \<le> x\<close> \<open>x < b\<close> show ?thesis by blast
  qed
qed

lemma clamp01_range: "0 \<le> clamp01 f \<and> clamp01 f \<le> 1"
  by (simp add: clamp01_def)

lemma clamp01_mono: "f \<le> g \<Longrightarrow> clamp01 f \<le> clamp01 g"
  by (simp add: clamp01_def)

lemma channel_lo_le_hi:
  assumes "0 \<le> ch_width c"
  shows "channel_lo c \<le> channel_hi c"
proof -
  have "0 \<le> f32r (ch_width c / 2)"
    unfolding f32r_def using assms by (intro fp_round_nonneg) simp
  then have "ch_center c - f32r (ch_width c / 2) \<le> ch_center c + f32r (ch_width c / 2)"
    by simp
  then show ?thesis
    unfolding channel_lo_def channel_hi_def by (intro clamp01_mono f32r_mono)
qed

lemma dir_sum_append: "dir_sum x (ps @ qs) = dir_sum x ps + dir_sum x qs"
  by (simp add: dir_sum_def)

lemma dir_sum_channels:
  assumes "\<forall>c \<in> set cs. ch_enabled c \<longrightarrow> channel_lo c \<le> channel_hi c"
  shows "dir_sum x (channel_edges cs) = int (depth cs x)"
  using assms
proof (induction cs)
  case Nil
  then show ?case by (simp add: dir_sum_def depth_def channel_edges_def)
next
  case (Cons c cs)
  then have ih: "dir_sum x (channel_edges cs) = int (depth cs x)"
    by simp
  have d: "depth (c # cs) x =
      (if ch_enabled c \<and> channel_lo c \<le> x \<and> x < channel_hi c then 1 else 0) + depth cs x"
    by (simp add: depth_def)
  have e: "channel_edges (c # cs) =
      (if ch_enabled c then [(1, channel_lo c), (- 1, channel_hi c)] else []) @ channel_edges cs"
    by (simp add: channel_edges_def)
  show ?case
  proof (cases "ch_enabled c")
    case False
    then show ?thesis using ih d e by simp
  next
    case True
    with Cons.prems have "channel_lo c \<le> channel_hi c" by simp
    then show ?thesis
      using True ih d e by (auto simp: dir_sum_append dir_sum_Cons)
  qed
qed

lemma channel_edges_range: "q \<in> set (channel_edges cs) \<Longrightarrow> 0 \<le> snd q \<and> snd q \<le> 1"
  using clamp01_range
  by (auto simp: channel_edges_def channel_lo_def channel_hi_def split: if_splits)

lemma channel_edges_enabled:
  "\<exists>c \<in> set cs. ch_enabled c \<Longrightarrow> channel_edges cs \<noteq> []"
  by (auto simp: channel_edges_def)

lemma dir_sum_between:
  assumes "\<forall>q \<in> set ps. snd q \<le> a \<or> b \<le> snd q" and "a \<le> x" and "x < b"
  shows "dir_sum a ps = dir_sum x ps"
proof -
  have "filter (\<lambda>q. snd q \<le> a) ps = filter (\<lambda>q. snd q \<le> x) ps"
    using assms by (intro filter_cong) auto
  then show ?thesis by (simp add: dir_sum_def)
qed

lemma f32r_half: "f32r (1 / 2) = 1 / 2"
  by code_simp

lemma f32r_one: "f32r 1 = 1"
  by code_simp

lemma f32r_fifth: "f32r (f32r (1 / 5)) < 1 / 2" "0 < f32r (1 / 5)"
  by code_simp+

lemma overlay_alpha_0: "overlay_alpha 0 = 0"
  by code_simp

lemma f32r_nonneg: "0 \<le> x \<Longrightarrow> 0 \<le> f32r x"
  unfolding f32r_def by (rule fp_round_nonneg)

lemma overlay_alpha_mono:
  assumes "0 \<le> l" and "l \<le> l'"
  shows "overlay_alpha l \<le> overlay_alpha l'"
proof -
  define n where "n = f32r (of_int (1 + l))"
  define n' where "n' = f32r (of_int (1 + l'))"
  have "f32r 1 \<le> n" unfolding n_def using assms(1) by (intro f32r_mono) simp
  then have n: "0 < n" by (simp add: f32r_one)
  have nn: "n \<le> n'" unfolding n_def n'_def using assms(2) by (intro f32r_mono) simp
  have "f32r (1 / 5) / n' \<le> f32r (1 / 5) / n"
    using n nn f32r_fifth(2) by (intro divide_left_mono) simp_all
  then have "f32r (f32r (1 / 5) / n') \<le> f32r (f32r (1 / 5) / n)" by (rule f32r_mono)
  then have "f32r (1 / 5) - f32r (f32r (1 / 5) / n) \<le> f32r (1 / 5) - f32r (f32r (1 / 5) / n')"
    by simp
  then show ?thesis
    unfolding overlay_alpha_def n_def [symmetric] n'_def [symmetric] by (rule f32r_mono)
qed

lemma overlay_alpha_less:
  assumes "0 \<le> l"
  shows "overlay_alpha l < 1 / 2"
proof -
  define n where "n = f32r (of_int (1 + l))"
  have "f32r 1 \<le> n" unfolding n_def using assms(1) by (intro f32r_mono) simp
  then have n: "0 < n" by (simp add: f32r_one)
  then have "0 \<le> f32r (1 / 5) / n" using f32r_fifth(2) by simp
  then have "0 \<le> f32r (f32r (1 / 5) / n)" by (rule f32r_nonneg)
  then have "f32r (1 / 5) - f32r (f32r (1 / 5) / n) \<le> f32r (1 / 5)" by simp
  then have "overlay_alpha l \<le> f32r (f32r (1 / 5))"
    unfolding overlay_alpha_def n_def [symmetric] by (rule f32r_mono)
  with f32r_fifth(1) show ?thesis by simp
qed


lemma channel_bands_sweep:
  assumes "\<exists>c \<in> set (channels r). ch_enabled c"
  shows "channel_bands r = sweep (- 1, 0) (- 1) ((1, 1) # channel_edges (channels r))"
  using channel_edges_enabled [OF assms]
  by (simp add: channel_bands_def channel_points_def Let_def del: sweep.simps)

lemma band_depth:
  assumes "\<exists>c \<in> set (channels r). ch_enabled c"
    and "\<forall>c \<in> set (channels r). ch_enabled c \<longrightarrow> 0 \<le> ch_width c"
    and "0 \<le> x" and "x < 1"
  shows "\<forall>(a, b, l) \<in> set (channel_bands r).
           a \<le> x \<and> x < b \<longrightarrow> l = int (depth (channels r) x) - 1 \<and> l \<noteq> 0"
    and "depth (channels r) x \<noteq> 1 \<Longrightarrow>
           \<exists>(a, b, l) \<in> set (channel_bands r). a \<le> x \<and> x < b"
proof -
  define ps where "ps = (1, 1) # channel_edges (channels r)"
  have bands: "channel_bands r = sweep (- 1, 0) (- 1) ps"
    using channel_bands_sweep [OF assms(1)] by (simp add: ps_def)
  have pre: "\<forall>q \<in> set ps. snd ((- 1, 0) :: pt) \<le> snd q"
    using channel_edges_range by (auto simp: ps_def)
  have wf: "\<forall>c \<in> set (channels r). ch_enabled c \<longrightarrow> channel_lo c \<le> channel_hi c"
    using assms(2) channel_lo_le_hi by blast
  have ds: "dir_sum x ps = int (depth (channels r) x)"
    using assms(4) dir_sum_channels [OF wf, of x] by (simp add: ps_def dir_sum_Cons)
  show "\<forall>(a, b, l) \<in> set (channel_bands r).
           a \<le> x \<and> x < b \<longrightarrow> l = int (depth (channels r) x) - 1 \<and> l \<noteq> 0"
  proof (clarify, intro conjI)
    fix a b l
    assume in_b: "(a, b, l) \<in> set (channel_bands r)" and ax: "a \<le> x" and xb: "x < b"
    from sweep_sound [OF pre in_b [unfolded bands]]
    have s: "\<forall>q \<in> set ps. snd q \<le> a \<or> b \<le> snd q" "l = - 1 + dir_sum a ps" "l \<noteq> 0"
      by simp_all
    from dir_sum_between [OF s(1) ax xb] s(2) ds
    show "l = int (depth (channels r) x) - 1" by simp
    show "l \<noteq> 0" by (rule s(3))
  qed
  show "\<exists>(a, b, l) \<in> set (channel_bands r). a \<le> x \<and> x < b"
    if "depth (channels r) x \<noteq> 1"
  proof -
    have "\<exists>q \<in> set ps. x < snd q" using assms(4) by (auto simp: ps_def)
    moreover have "- 1 + dir_sum x ps \<noteq> 0" using that ds by simp
    ultimately obtain a b l' where "(a, b, l') \<in> set (sweep (- 1, 0) (- 1) ps)" "a \<le> x" "x < b"
      using sweep_complete [OF pre, of x "- 1"] assms(3) by auto
    then show ?thesis unfolding bands by blast
  qed
qed

text \<open>
  Claim C4, as amended. On a pane with the channel overlay enabled, when at least one
  channel is enabled and the enabled channels have non-negative width, the sweep shades
  every position \<open>x\<close> of \<open>[0, 1)\<close> by its coverage depth \<open>d\<close>: black with opacity \<open>0.5\<close> where
  \<open>d = 0\<close>, nothing where \<open>d = 1\<close>, white with opacity \<open>0.2 - 0.2 / d\<close> (in single precision)
  where \<open>d \<ge> 2\<close>. The in-channel opacity starts at 0, is non-decreasing in the depth and
  stays below the opacity \<open>0.5\<close> outside all channels. For the channels \<open>[0.1, 0.3]\<close> and
  \<open>[0.2, 0.4]\<close> this is depth 1 on \<open>[0.1, 0.2)\<close> and \<open>[0.3, 0.4)\<close>, depth 2 on \<open>[0.2, 0.3)\<close> and
  depth 0 elsewhere, the boundaries being the single-precision edges listed in
  \<open>two_channel_bands\<close>.
\<close>

theorem channel_overlay:
  assumes "options r AND FRO_CHANNELS \<noteq> 0"
    and "\<exists>c \<in> set (channels r). ch_enabled c"
    and "\<forall>c \<in> set (channels r). ch_enabled c \<longrightarrow> 0 \<le> ch_width c"
    and "0 \<le> x" and "x < 1"
  shows "overlay_shade r x =
           (if depth (channels r) x = 0 then Some (0, 0, 0, 1 / 2)
            else if depth (channels r) x = 1 then None
            else Some (1, 1, 1, overlay_alpha (int (depth (channels r) x) - 1)))
         \<and> overlay_alpha 0 = 0
         \<and> (\<forall>l l'. 0 \<le> l \<and> l \<le> l' \<longrightarrow>
               overlay_alpha l \<le> overlay_alpha l' \<and> overlay_alpha l' < 1 / 2)"
proof (intro conjI)
  note bd = band_depth [OF assms(2-5)]
  let ?P = "\<lambda>(a, b, l). a \<le> x \<and> x < b"
  let ?d = "depth (channels r) x"
  show "overlay_shade r x =
           (if ?d = 0 then Some (0, 0, 0, 1 / 2)
            else if ?d = 1 then None
            else Some (1, 1, 1, overlay_alpha (int ?d - 1)))"
  proof (cases "find ?P (channel_bands r)")
    case None
    then have "\<not> (\<exists>bd. bd \<in> set (channel_bands r) \<and> ?P bd)"
      by (rule find_None_iff [THEN iffD1])
    with bd(2) have "?d = 1" by blast
    with None assms(1) show ?thesis by (simp add: overlay_shade_def)
  next
    case (Some bd)
    obtain a b l where abl: "bd = (a, b, l)" by (cases bd)
    from Some have "bd \<in> set (channel_bands r)" "?P bd"
      by (auto simp: find_Some_iff in_set_conv_nth)
    with bd(1) abl have l: "l = int ?d - 1" "l \<noteq> 0" by auto
    then have "?d \<noteq> 1" by simp
    with Some assms(1) l show ?thesis
      by (auto simp: overlay_shade_def abl band_colour_def f32r_half)
  qed
  show "overlay_alpha 0 = 0" by (rule overlay_alpha_0)
  show "\<forall>l l'. 0 \<le> l \<and> l \<le> l' \<longrightarrow> overlay_alpha l \<le> overlay_alpha l' \<and> overlay_alpha l' < 1 / 2"
    using overlay_alpha_mono overlay_alpha_less by auto
qed


text \<open>
  Without the first hypothesis the claim fails: when no channel is enabled the whole
  band is outside all channels, and nothing is shaded.
\<close>

theorem channel_overlay_cex:
  "options no_channel_render AND FRO_CHANNELS \<noteq> 0
   \<and> depth (channels no_channel_render) (1 / 2) = 0
   \<and> overlay_shade no_channel_render (1 / 2) = None
   \<and> draw_channels no_channel_render = []"
  by code_simp

lemma two_channel_bands:
  "channel_bands two_channel_render =
     [(0, 13421773 / 134217728, - 1),
      (6710887 / 33554432, 5033165 / 16777216, 1),
      (13421773 / 33554432, 1, - 1)]"
  by code_simp

lemma two_channel_depth:
  "depth (channels two_channel_render) (1 / 20) = 0"
  "depth (channels two_channel_render) (3 / 20) = 1"
  "depth (channels two_channel_render) (1 / 4) = 2"
  "depth (channels two_channel_render) (7 / 20) = 1"
  "depth (channels two_channel_render) (1 / 2) = 0"
  by code_simp+

lemma two_channel_hyps:
  "options two_channel_render AND FRO_CHANNELS \<noteq> 0"
  "\<exists>c \<in> set (channels two_channel_render). ch_enabled c"
  "\<forall>c \<in> set (channels two_channel_render). ch_enabled c \<longrightarrow> 0 \<le> ch_width c"
  by code_simp+

lemma overlay_alpha_1: "overlay_alpha 1 = 13421773 / 134217728"
  by code_simp

theorem channel_overlay_witness:
  "options two_channel_render AND FRO_CHANNELS \<noteq> 0
   \<and> overlay_shade two_channel_render (1 / 20) = Some (0, 0, 0, 1 / 2)
   \<and> overlay_shade two_channel_render (3 / 20) = None
   \<and> overlay_shade two_channel_render (1 / 4) = Some (1, 1, 1, 13421773 / 134217728)
   \<and> overlay_shade two_channel_render (7 / 20) = None
   \<and> overlay_shade two_channel_render (1 / 2) = Some (0, 0, 0, 1 / 2)
   \<and> overlay_alpha 0 \<le> overlay_alpha 1 \<and> overlay_alpha 1 < 1 / 2"
proof -
  note h = two_channel_hyps
  have "overlay_shade two_channel_render (1 / 20) = Some (0, 0, 0, 1 / 2)"
    using channel_overlay [OF h, of "1 / 20"] by (simp add: two_channel_depth)
  moreover have "overlay_shade two_channel_render (3 / 20) = None"
    using channel_overlay [OF h, of "3 / 20"] by (simp add: two_channel_depth)
  moreover have "overlay_shade two_channel_render (1 / 4) = Some (1, 1, 1, 13421773 / 134217728)"
    using channel_overlay [OF h, of "1 / 4"] by (simp add: two_channel_depth overlay_alpha_1)
  moreover have "overlay_shade two_channel_render (7 / 20) = None"
    using channel_overlay [OF h, of "7 / 20"] by (simp add: two_channel_depth)
  moreover have "overlay_shade two_channel_render (1 / 2) = Some (0, 0, 0, 1 / 2)"
    using channel_overlay [OF h, of "1 / 2"] by (simp add: two_channel_depth)
  moreover have "overlay_alpha 0 \<le> overlay_alpha 1 \<and> overlay_alpha 1 < 1 / 2"
  proof -
    from channel_overlay [OF h, of "1 / 2"]
    have "\<forall>l l'. 0 \<le> l \<and> l \<le> l' \<longrightarrow>
            overlay_alpha l \<le> overlay_alpha l' \<and> overlay_alpha l' < 1 / 2"
      by simp
    then have "0 \<le> (0::int) \<and> (0::int) \<le> 1 \<longrightarrow>
            overlay_alpha 0 \<le> overlay_alpha 1 \<and> overlay_alpha 1 < 1 / 2"
      by blast
    then show ?thesis by simp
  qed
  ultimately show ?thesis using h(1) by blast
qed


end
